theory Spec2Isabelle
  imports Complex_Main "HOL-Library.While_Combinator" "HOL-Library.Option_ord" "HOL-Library.Product_Lexorder"
begin

section \<open>Python values and errors\<close>

text \<open>
  The exceptions the modelled functions can raise. \<open>Complex_result\<close> is not a raise:
  Python evaluates \<^verbatim>\<open>x ** 0.5\<close> for a negative float \<open>x\<close> to a complex number and
  carries on; the model has no complex values and stops there with this marker.
  Python floats are idealised as real numbers throughout.
\<close>

datatype py_error =
    ZeroDivisionError
  | IndexError
  | ValueError
  | TypeError
  | UnboundLocalError
  | Complex_result

definition py_sqrt_pow :: "real \<Rightarrow> py_error + real" where
  \<comment> \<open>\<^verbatim>\<open>x ** 0.5\<close>\<close>
  "py_sqrt_pow x = (if x < 0 then Inl Complex_result else Inr (sqrt x))"

definition py_truediv :: "real \<Rightarrow> real \<Rightarrow> py_error + real" where
  \<comment> \<open>\<^verbatim>\<open>a / b\<close> on numbers: a zero divisor raises\<close>
  "py_truediv a b = (if b = 0 then Inl ZeroDivisionError else Inr (a / b))"

section \<open>estimate\_u.py: the size of the random sample\<close>

definition rows_needed_for_n_pairs :: "real \<Rightarrow> py_error + real" where
  "rows_needed_for_n_pairs n_pairs =
     (case py_sqrt_pow (8 * n_pairs + 1) of
        Inl e \<Rightarrow> Inl e
      | Inr s \<Rightarrow> Inr (0.5 * (s + 1)))"

definition proportion_sample_size_link_only ::
  "int list \<Rightarrow> real \<Rightarrow> py_error + (real \<times> real)" where
  "proportion_sample_size_link_only row_counts_individual_dfs max_pairs =
     (let total_links =
            real_of_int ((sum_list row_counts_individual_dfs)\<^sup>2
                         - sum_list (map (\<lambda>count. count\<^sup>2) row_counts_individual_dfs)) / 2;
          total_nodes = sum_list row_counts_individual_dfs
      in case py_truediv max_pairs total_links of
           Inl e \<Rightarrow> Inl e
         | Inr q \<Rightarrow>
             (case py_sqrt_pow q of
                Inl e \<Rightarrow> Inl e
              | Inr proportion \<Rightarrow> Inr (proportion, proportion * real_of_int total_nodes)))"

text \<open>
  The table \<^verbatim>\<open>__splink__df_concat\<close> enters the computation only through two counting
  queries, so it is represented by its \<^verbatim>\<open>source_dataset\<close> column, one entry per row
  (\<open>None\<close> is SQL NULL).
\<close>

type_synonym df_concat = "string option list"

definition count_star :: "df_concat \<Rightarrow> int" where
  \<comment> \<open>\<^verbatim>\<open>select count(*) as count from __splink__df_concat\<close>\<close>
  "count_star rows = int (length rows)"

definition count_by_source_dataset :: "df_concat \<Rightarrow> int list" where
  \<comment> \<open>\<^verbatim>\<open>select count(source_dataset) as count from __splink__df_concat group by source_dataset\<close>;
      \<^verbatim>\<open>count(column)\<close> skips NULLs, so the group of NULLs counts 0\<close>
  "count_by_source_dataset rows =
     map (\<lambda>k. int (length (filter (\<lambda>v. v = k \<and> v \<noteq> None) rows))) (remdups rows)"

text \<open>
  Lines 84--115 of \<^verbatim>\<open>estimate_u_values\<close>: the proportion, the sample size and the total
  row count before clamping. A link type outside the three known ones leaves
  \<^verbatim>\<open>proportion\<close> unbound at line 117; a complex proportion fails the comparison there.
\<close>

definition sample_parameters ::
  "string \<Rightarrow> df_concat \<Rightarrow> real \<Rightarrow> py_error + (real \<times> real \<times> int)" where
  "sample_parameters link_type rows max_pairs =
     (if link_type \<in> set [''dedupe_only'', ''link_and_dedupe''] then
        (let total_nodes = count_star rows in
         if total_nodes = 0 then Inl ZeroDivisionError
         else case rows_needed_for_n_pairs max_pairs of
                Inl e \<Rightarrow> Inl TypeError
              | Inr sample_size \<Rightarrow>
                  Inr (sample_size / real_of_int total_nodes, sample_size, total_nodes))
      else if link_type = ''link_only'' then
        (let frame_counts = count_by_source_dataset rows in
         case proportion_sample_size_link_only frame_counts max_pairs of
           Inl Complex_result \<Rightarrow> Inl TypeError
         | Inl e \<Rightarrow> Inl e
         | Inr (proportion, sample_size) \<Rightarrow>
             Inr (proportion, sample_size, sum_list frame_counts))
      else Inl UnboundLocalError)"

definition clamp_sample :: "real \<times> real \<times> int \<Rightarrow> real \<times> real" where
  \<comment> \<open>lines 117--121\<close>
  "clamp_sample psn =
     (case psn of (proportion, sample_size, total_nodes) \<Rightarrow>
        (if proportion \<ge> 1.0 then 1.0 else proportion,
         if sample_size > real_of_int total_nodes then real_of_int total_nodes else sample_size))"

text \<open>
  Modelled from the spec: \<^verbatim>\<open>Linker._random_sample_sql\<close>, the method that turns the
  clamped proportion and sample size into the sampling clause of the query, is not among
  the sources. The spec says of it: "If proportion \<open>\<ge>\<close> 1, sampling is skipped (use full
  data)"; otherwise a uniform sample of the given proportion or size is drawn, optionally
  seeded.
\<close>

datatype sample_clause = Full_data | Random_sample real real "int option"

definition random_sample_sql :: "real \<Rightarrow> real \<Rightarrow> int option \<Rightarrow> sample_clause" where
  "random_sample_sql proportion sample_size seed =
     (if proportion \<ge> 1 then Full_data else Random_sample proportion sample_size seed)"

text \<open>
  Lines 84--133 as one function: the values handed to \<^verbatim>\<open>_random_sample_sql\<close> and the
  clause it returns for \<^verbatim>\<open>__splink__df_concat_sample\<close>.
\<close>

definition estimate_u_values_sample ::
  "string \<Rightarrow> df_concat \<Rightarrow> real \<Rightarrow> int option \<Rightarrow> py_error + (real \<times> real \<times> sample_clause)" where
  "estimate_u_values_sample link_type rows max_pairs seed =
     (case sample_parameters link_type rows max_pairs of
        Inl e \<Rightarrow> Inl e
      | Inr psn \<Rightarrow>
          (case clamp_sample psn of (proportion, sample_size) \<Rightarrow>
             Inr (proportion, sample_size, random_sample_sql proportion sample_size seed)))"


section \<open>comparison\_creator.py: furnishing levels with m and u probabilities\<close>

text \<open>
  Modelled from the spec: \<^verbatim>\<open>ComparisonLevelCreator\<close> and its \<^verbatim>\<open>configure\<close> method are
  not among the sources. The spec gives a level a null flag and optional m and u
  probabilities ("each level optionally carries an m\_probability and u\_probability");
  \<^verbatim>\<open>configure(m_probability=v)\<close> stores \<open>v\<close> in the level and returns the level.
\<close>

record comparison_level_creator =
  is_null_level :: bool
  m_probability :: "real option"
  u_probability :: "real option"

definition configure_m_probability ::
  "real option \<Rightarrow> comparison_level_creator \<Rightarrow> comparison_level_creator" where
  "configure_m_probability v cl = cl\<lparr>m_probability := v\<rparr>"

definition configure_u_probability ::
  "real option \<Rightarrow> comparison_level_creator \<Rightarrow> comparison_level_creator" where
  "configure_u_probability v cl = cl\<lparr>u_probability := v\<rparr>"

text \<open>
  A \<^verbatim>\<open>ComparisonCreator\<close>: the levels its abstract method \<^verbatim>\<open>create_comparison_levels\<close>
  returns, and the attributes \<^verbatim>\<open>_m_probabilities\<close> and \<^verbatim>\<open>_u_probabilities\<close>
  (\<open>None\<close> while unset, as \<^verbatim>\<open>getattr(self, "_m_probabilities", None)\<close> reads them).
\<close>

record comparison_creator =
  create_comparison_levels :: "comparison_level_creator list"
  m_probabilities :: "real list option"
  u_probabilities :: "real list option"

definition truthy :: "'a list option \<Rightarrow> bool" where
  \<comment> \<open>Python's truth value of an optional list: \<^verbatim>\<open>None\<close> and \<^verbatim>\<open>[]\<close> are false\<close>
  "truthy v = (case v of None \<Rightarrow> False | Some xs \<Rightarrow> xs \<noteq> [])"

definition num_non_null_levels :: "comparison_creator \<Rightarrow> nat" where
  "num_non_null_levels cc =
     length (filter (\<lambda>cl. \<not> is_null_level cl) (create_comparison_levels cc))"

definition set_m_probabilities ::
  "comparison_creator \<Rightarrow> real list option \<Rightarrow> py_error + comparison_creator" where
  \<comment> \<open>the setter of the property \<^verbatim>\<open>m_probabilities\<close>\<close>
  "set_m_probabilities cc v =
     (if truthy v then
        (if length (the v) \<noteq> num_non_null_levels cc then Inl ValueError
         else Inr (cc\<lparr>m_probabilities := v\<rparr>))
      else Inr cc)"

definition set_u_probabilities ::
  "comparison_creator \<Rightarrow> real list option \<Rightarrow> py_error + comparison_creator" where
  "set_u_probabilities cc v =
     (if truthy v then
        (if length (the v) \<noteq> num_non_null_levels cc then Inl ValueError
         else Inr (cc\<lparr>u_probabilities := v\<rparr>))
      else Inr cc)"

definition configure ::
  "comparison_creator \<Rightarrow> real list option \<Rightarrow> real list option \<Rightarrow> py_error + comparison_creator" where
  "configure cc m u =
     (case set_m_probabilities cc m of
        Inl e \<Rightarrow> Inl e
      | Inr cc' \<Rightarrow> set_u_probabilities cc' u)"

text \<open>
  The list comprehension of \<^verbatim>\<open>get_configured_comparison_levels\<close>, left to right:
  a null level is configured with \<^verbatim>\<open>None\<close>, any other level with \<^verbatim>\<open>values.pop(0)\<close>,
  which raises IndexError on an empty list.
\<close>

fun configure_levels ::
  "(real option \<Rightarrow> comparison_level_creator \<Rightarrow> comparison_level_creator) \<Rightarrow>
   comparison_level_creator list \<Rightarrow> real list \<Rightarrow> py_error + comparison_level_creator list" where
  "configure_levels conf [] values = Inr []"
| "configure_levels conf (cl # cls) values =
     (if \<not> is_null_level cl then
        (case values of
           [] \<Rightarrow> Inl IndexError
         | v # rest \<Rightarrow>
             (case configure_levels conf cls rest of
                Inl e \<Rightarrow> Inl e
              | Inr done \<Rightarrow> Inr (conf (Some v) cl # done)))
      else
        (case configure_levels conf cls values of
           Inl e \<Rightarrow> Inl e
         | Inr done \<Rightarrow> Inr (conf None cl # done)))"

definition get_configured_comparison_levels ::
  "comparison_creator \<Rightarrow> py_error + comparison_level_creator list" where
  "get_configured_comparison_levels cc =
     (let comparison_levels = create_comparison_levels cc in
      case (if truthy (m_probabilities cc)
            then configure_levels configure_m_probability comparison_levels (the (m_probabilities cc))
            else Inr comparison_levels) of
        Inl e \<Rightarrow> Inl e
      | Inr comparison_levels \<Rightarrow>
          (if truthy (u_probabilities cc)
           then configure_levels configure_u_probability comparison_levels (the (u_probabilities cc))
           else Inr comparison_levels))"

text \<open>
  What the two setters establish and every later call relies on: a list that is set is
  not empty and has one value for each non-null level.
\<close>

definition configured_by_setters :: "comparison_creator \<Rightarrow> bool" where
  "configured_by_setters cc =
     ((case m_probabilities cc of None \<Rightarrow> True
        | Some ms \<Rightarrow> ms \<noteq> [] \<and> length ms = num_non_null_levels cc) \<and>
      (case u_probabilities cc of None \<Rightarrow> True
        | Some us \<Rightarrow> us \<noteq> [] \<and> length us = num_non_null_levels cc))"

section \<open>connected\_components.py: the queries\<close>

text \<open>
  A table is the list of its rows and a nullable column has an option type (\<open>None\<close> is
  SQL NULL). Node ids are integers and never NULL; \<^verbatim>\<open>match_probability\<close> is a real number.
\<close>

type_synonym node_id = int
type_synonym edge_row = "node_id \<times> node_id \<times> real"
type_synonym neighbour_row = "node_id \<times> node_id option"
type_synonym representative_row = "node_id \<times> node_id option \<times> bool option"

definition left_join :: "'a list \<Rightarrow> 'b list \<Rightarrow> ('a \<Rightarrow> 'b \<Rightarrow> bool) \<Rightarrow> ('a \<times> 'b option) list" where
  \<comment> \<open>a left row without a partner is kept once, with NULLs on the right\<close>
  "left_join xs ys on =
     concat (map (\<lambda>x. let ms = filter (on x) ys
                      in if ms = [] then [(x, None)] else map (\<lambda>y. (x, Some y)) ms) xs)"

definition inner_join :: "'a list \<Rightarrow> 'b list \<Rightarrow> ('a \<Rightarrow> 'b \<Rightarrow> bool) \<Rightarrow> ('a \<times> 'b) list" where
  "inner_join xs ys on = concat (map (\<lambda>x. map (Pair x) (filter (on x) ys)) xs)"

definition sql_union :: "'a list \<Rightarrow> 'a list \<Rightarrow> 'a list" where
  \<comment> \<open>\<^verbatim>\<open>UNION\<close> removes duplicate rows; \<^verbatim>\<open>UNION ALL\<close> is \<open>@\<close>\<close>
  "sql_union xs ys = remdups (xs @ ys)"

definition group_by :: "('a \<Rightarrow> 'k) \<Rightarrow> 'a list \<Rightarrow> ('k \<times> 'a list) list" where
  "group_by key xs = map (\<lambda>k. (k, filter (\<lambda>x. key x = k) xs)) (remdups (map key xs))"

definition non_null :: "'a option list \<Rightarrow> 'a list" where
  "non_null vs = map the (filter (\<lambda>v. v \<noteq> None) vs)"

definition sql_min :: "int option list \<Rightarrow> int option" where
  \<comment> \<open>the aggregate \<^verbatim>\<open>min\<close> skips NULLs and is NULL when nothing is left\<close>
  "sql_min vs = (case non_null vs of [] \<Rightarrow> None | w # ws \<Rightarrow> Some (fold min ws w))"

definition sql_neq :: "int option \<Rightarrow> int option \<Rightarrow> bool option" where
  \<comment> \<open>\<^verbatim>\<open>a <> b\<close> is NULL when an operand is\<close>
  "sql_neq a b = (case a of None \<Rightarrow> None
                  | Some x \<Rightarrow> (case b of None \<Rightarrow> None | Some y \<Rightarrow> Some (x \<noteq> y)))"

definition sql_in :: "'a option \<Rightarrow> 'a option list \<Rightarrow> bool" where
  \<comment> \<open>a row passes \<^verbatim>\<open>where x in (subquery)\<close> only when the test is true, not NULL\<close>
  "sql_in x vs = (x \<noteq> None \<and> x \<in> set vs)"

definition sql_not_in :: "'a option \<Rightarrow> 'a option list \<Rightarrow> bool" where
  \<comment> \<open>\<^verbatim>\<open>x not in (subquery)\<close> is true for an empty subquery, and otherwise NULL as soon
      as \<open>x\<close> or a value of the subquery is\<close>
  "sql_not_in x vs = (vs = [] \<or> (x \<noteq> None \<and> None \<notin> set vs \<and> x \<notin> set vs))"

definition splink_edges :: "real option \<Rightarrow> edge_row list \<Rightarrow> node_id list \<Rightarrow> (node_id \<times> node_id) list" where
  \<comment> \<open>\<^verbatim>\<open>__splink__edges\<close>: the edges at or above the threshold, and one self-link per node\<close>
  "splink_edges threshold_match_probability edges_table nodes_table =
     sql_union
       (map (\<lambda>e. (fst e, fst (snd e)))
          (filter (\<lambda>e. case threshold_match_probability of
                          None \<Rightarrow> True
                        | Some t \<Rightarrow> snd (snd e) \<ge> t) edges_table))
       (map (\<lambda>n. (n, n)) nodes_table)"

definition cc_generate_neighbours_representation ::
  "node_id list \<Rightarrow> (node_id \<times> node_id) list \<Rightarrow> neighbour_row list" where
  "cc_generate_neighbours_representation nodes edges =
     sql_union
       (map (\<lambda>(n, e_l). (n, map_option snd e_l))
          (left_join nodes edges (\<lambda>n e_l. n = fst e_l)))
       (map (\<lambda>(n, e_r). (n, Some (case e_r of None \<Rightarrow> n | Some e \<Rightarrow> fst e)))
          (left_join nodes edges (\<lambda>n e_r. n = snd e_r)))"

definition cc_generate_initial_representatives_table ::
  "neighbour_row list \<Rightarrow> (node_id \<times> node_id option) list" where
  "cc_generate_initial_representatives_table neighbours =
     sort_key fst
       (map (\<lambda>(node_id, rows). (node_id, sql_min (map snd rows)))
          (group_by fst neighbours))"

definition cc_update_neighbours_first_iter ::
  "neighbour_row list \<Rightarrow> (node_id \<times> node_id option) list \<Rightarrow> (node_id \<times> node_id option) list" where
  "cc_update_neighbours_first_iter neighbours representatives =
     sort_key fst
       (map (\<lambda>(node_id, rows).
               (node_id,
                sql_min (map (\<lambda>(nb, r). case r of None \<Rightarrow> None | Some rr \<Rightarrow> snd rr) rows)))
          (group_by (\<lambda>(nb, r). fst nb)
             (left_join neighbours representatives (\<lambda>nb r. snd nb = Some (fst r)))))"

definition cc_update_representatives_first_iter ::
  "(node_id \<times> node_id option) list \<Rightarrow> (node_id \<times> node_id option) list \<Rightarrow>
   representative_row list" where
  "cc_update_representatives_first_iter neighbours_first_iter representatives =
     map (\<lambda>(n, repr). (fst n, snd n, sql_neq (snd n) (snd repr)))
       (inner_join neighbours_first_iter representatives (\<lambda>n repr. fst n = fst repr))"

definition cc_generate_representatives_loop_cond ::
  "neighbour_row list \<Rightarrow> representative_row list \<Rightarrow> (node_id \<times> node_id option) list" where
  "cc_generate_representatives_loop_cond neighbours prev_representatives =
     (let source =
            map (\<lambda>(nb, repr_neighbour). (fst nb, fst (snd repr_neighbour)))
              (filter (\<lambda>(nb, repr_neighbour). snd (snd repr_neighbour) = Some True)
                 (inner_join neighbours prev_representatives
                    (\<lambda>nb repr_neighbour. snd nb = Some (fst repr_neighbour))))
            @ map (\<lambda>p. (fst p, fst (snd p)))
                (filter (\<lambda>p. snd (snd p) = Some False) prev_representatives)
      in map (\<lambda>(node_id, rows). (node_id, sql_min (map snd rows))) (group_by fst source))"

definition cc_update_representatives_loop_cond ::
  "(node_id \<times> node_id option) list \<Rightarrow> representative_row list \<Rightarrow> representative_row list" where
  "cc_update_representatives_loop_cond r prev_representatives =
     map (\<lambda>(rr, repr).
            (fst rr, snd rr,
             case repr of None \<Rightarrow> None | Some p \<Rightarrow> sql_neq (snd rr) (fst (snd p))))
       (left_join r prev_representatives (\<lambda>rr repr. fst rr = fst repr))"

definition cc_assess_exit_condition :: "representative_row list \<Rightarrow> nat" where
  \<comment> \<open>\<^verbatim>\<open>select count(*) from ... where rep_match\<close>\<close>
  "cc_assess_exit_condition representatives =
     length (filter (\<lambda>r. snd (snd r) = Some True) representatives)"

text \<open>
  The three queries inside the loop that find the stable clusters. \<^verbatim>\<open>list_distinct\<close>
  drops duplicates and NULLs, \<^verbatim>\<open>list_sort\<close> sorts ascending.
\<close>

definition list_sort_distinct :: "int option list \<Rightarrow> int list" where
  "list_sort_distinct vs = sort (remdups (non_null vs))"

definition cluster_composition_current ::
  "representative_row list \<Rightarrow> neighbour_row list \<Rightarrow> (node_id option \<times> int list \<times> int list) list" where
  "cluster_composition_current representatives neighbours =
     map (\<lambda>(representative, rows).
            (representative,
             list_sort_distinct (map (\<lambda>(r, nb). Some (fst r)) rows),
             list_sort_distinct (map (\<lambda>(r, nb). case nb of None \<Rightarrow> None | Some x \<Rightarrow> snd x) rows)))
       (group_by (\<lambda>(r, nb). fst (snd r))
          (left_join representatives neighbours (\<lambda>r nb. fst r = fst nb)))"

definition stable_clusters ::
  "(node_id option \<times> int list \<times> int list) list \<Rightarrow> (node_id option \<times> int list) list" where
  "stable_clusters composition =
     map (\<lambda>(representative, distinct_node_ids, distinct_neighbours).
            (representative, distinct_node_ids))
       (filter (\<lambda>(representative, distinct_node_ids, distinct_neighbours).
                  distinct_node_ids = distinct_neighbours) composition)"

definition representatives_stable ::
  "representative_row list \<Rightarrow> neighbour_row list \<Rightarrow> representative_row list" where
  "representatives_stable representatives neighbours =
     filter (\<lambda>r. sql_in (fst (snd r))
                   (map fst (stable_clusters (cluster_composition_current representatives neighbours))))
       representatives"

definition representatives_thinned ::
  "representative_row list \<Rightarrow> representative_row list \<Rightarrow> representative_row list" where
  "representatives_thinned representatives stable_rows =
     filter (\<lambda>r. sql_not_in (fst (snd r)) (map (\<lambda>s. fst (snd s)) stable_rows)) representatives"

section \<open>connected\_components.py: the loop\<close>

record cc_state =
  iteration :: nat
  root_rows_count :: nat
  prev_representatives_table :: "representative_row list"
  converged_repr_tables :: "representative_row list list"

definition cc_iteration :: "neighbour_row list \<Rightarrow> cc_state \<Rightarrow> cc_state" where
  \<comment> \<open>one pass through the body of the \<^verbatim>\<open>while\<close> loop\<close>
  "cc_iteration neighbours st =
     (let prev = prev_representatives_table st;
          r = cc_generate_representatives_loop_cond neighbours prev;
          representatives = cc_update_representatives_loop_cond r prev;
          stable_rows = representatives_stable representatives neighbours;
          thinned = representatives_thinned representatives stable_rows
      in \<lparr>iteration = iteration st + 1,
          root_rows_count = cc_assess_exit_condition thinned,
          prev_representatives_table = thinned,
          converged_repr_tables = converged_repr_tables st @ [stable_rows]\<rparr>)"

definition cc_neighbours ::
  "node_id list \<Rightarrow> edge_row list \<Rightarrow> real option \<Rightarrow> neighbour_row list" where
  \<comment> \<open>\<^verbatim>\<open>__splink__df_neighbours\<close> as \<^verbatim>\<open>solve_connected_components\<close> builds it\<close>
  "cc_neighbours nodes_table edges_table threshold_match_probability =
     cc_generate_neighbours_representation nodes_table
       (splink_edges threshold_match_probability edges_table nodes_table)"

definition cc_initial_state :: "neighbour_row list \<Rightarrow> cc_state" where
  \<comment> \<open>the state on entry to the loop: \<^verbatim>\<open>__splink__df_representatives\<close> and the dummy count 1\<close>
  "cc_initial_state neighbours =
     (let representatives = cc_generate_initial_representatives_table neighbours;
          neighbours_first_iter = cc_update_neighbours_first_iter neighbours representatives
      in \<lparr>iteration = 0,
          root_rows_count = 1,
          prev_representatives_table =
            cc_update_representatives_first_iter neighbours_first_iter representatives,
          converged_repr_tables = []\<rparr>)"

definition clustering_output :: "representative_row list list \<Rightarrow> (node_id option \<times> node_id) list" where
  \<comment> \<open>\<^verbatim>\<open>UNION ALL\<close> of the converged tables, as (cluster\_id, node\_id), ordered by both
      (where a NULL cluster id would sort depends on the backend; here it sorts first)\<close>
  "clustering_output tables =
     sort_key (\<lambda>row. row) (map (\<lambda>r. (fst (snd r), fst r)) (concat tables))"

definition solve_connected_components ::
  "node_id list \<Rightarrow> edge_row list \<Rightarrow> real option \<Rightarrow> (node_id option \<times> node_id) list option" where
  \<comment> \<open>\<open>None\<close>: the loop never ends\<close>
  "solve_connected_components nodes_table edges_table threshold_match_probability =
     (let neighbours = cc_neighbours nodes_table edges_table threshold_match_probability
      in map_option (\<lambda>st. clustering_output (converged_repr_tables st))
           (while_option (\<lambda>st. root_rows_count st > 0) (cc_iteration neighbours)
              (cc_initial_state neighbours)))"

section \<open>estimate\_u.py: the objects \<^verbatim>\<open>estimate_u_values\<close> reads and writes\<close>

text \<open>
  The settings object, its comparisons and their levels are mutable Python objects, and
  \<^verbatim>\<open>estimate_u_values\<close> works on a deep copy of them before it writes to the originals.
  The objects live in a store: a list of objects, an object's address being its position,
  and a new object being put at the end.

  Modelled from the spec: the classes \<^verbatim>\<open>Linker\<close>, \<^verbatim>\<open>Settings\<close>, \<^verbatim>\<open>Comparison\<close> and
  \<^verbatim>\<open>ComparisonLevel\<close> are not among the sources. The records below hold the attributes
  \<^verbatim>\<open>estimate_u_values\<close> touches, and what the spec gives a level: its null flag, its
  m probability and its trained probabilities with their provenance tag.
\<close>

type_synonym ref = nat

record blocking_rule_obj =
  blocking_rule :: string
  salting_partitions :: nat

record comparison_level =
  cl_is_null_level :: bool
  cl_comparison_vector_value :: int
  cl_tf_adjustment_column :: "string option"
  cl_m_probability :: "real option"
  cl_trained_u_probabilities :: "(real \<times> string) list"

record comparison =
  output_column_name :: string
  comparison_levels :: "ref list"

record settings =
  settings_link_type :: string
  retain_matching_columns :: bool
  retain_intermediate_calculation_columns :: bool
  blocking_rules_to_generate_predictions :: "blocking_rule_obj list"
  comparisons :: "ref list"

datatype py_object = Settings settings | Comparison comparison | Level comparison_level

type_synonym store = "py_object list"

record linker =
  settings_obj :: ref
  sql_dialect :: string

definition get_settings :: "store \<Rightarrow> ref \<Rightarrow> settings option" where
  "get_settings h a =
     (if a < length h then (case h ! a of Settings s \<Rightarrow> Some s | _ \<Rightarrow> None) else None)"

definition get_comparison :: "store \<Rightarrow> ref \<Rightarrow> comparison option" where
  "get_comparison h a =
     (if a < length h then (case h ! a of Comparison c \<Rightarrow> Some c | _ \<Rightarrow> None) else None)"

definition get_level :: "store \<Rightarrow> ref \<Rightarrow> comparison_level option" where
  "get_level h a =
     (if a < length h then (case h ! a of Level l \<Rightarrow> Some l | _ \<Rightarrow> None) else None)"

text \<open>
  Attribute assignment through a reference. A reference of a running program always
  points to an object of its class; for any other address the store is left as it is.
\<close>

definition update_settings :: "ref \<Rightarrow> (settings \<Rightarrow> settings) \<Rightarrow> store \<Rightarrow> store" where
  "update_settings a f h =
     (case get_settings h a of Some s \<Rightarrow> h[a := Settings (f s)] | None \<Rightarrow> h)"

definition update_level :: "ref \<Rightarrow> (comparison_level \<Rightarrow> comparison_level) \<Rightarrow> store \<Rightarrow> store" where
  "update_level a f h =
     (case get_level h a of Some l \<Rightarrow> h[a := Level (f l)] | None \<Rightarrow> h)"

definition level_refs :: "store \<Rightarrow> ref \<Rightarrow> ref list" where
  \<comment> \<open>\<^verbatim>\<open>cc.comparison_levels\<close>\<close>
  "level_refs h c = (case get_comparison h c of Some cmp \<Rightarrow> comparison_levels cmp | None \<Rightarrow> [])"

definition comparison_refs :: "store \<Rightarrow> ref \<Rightarrow> ref list" where
  \<comment> \<open>\<^verbatim>\<open>settings_obj.comparisons\<close>\<close>
  "comparison_refs h s = (case get_settings h s of Some st \<Rightarrow> comparisons st | None \<Rightarrow> [])"

definition comparison_levels_excluding_null :: "store \<Rightarrow> ref \<Rightarrow> ref list" where
  \<comment> \<open>Modelled from the spec: the property \<^verbatim>\<open>Comparison._comparison_levels_excluding_null\<close>
      ("enumerate comparison levels excluding the null level")\<close>
  "comparison_levels_excluding_null h c =
     filter (\<lambda>l. case get_level h l of Some lvl \<Rightarrow> \<not> cl_is_null_level lvl | None \<Rightarrow> False)
       (level_refs h c)"

text \<open>
  \<^verbatim>\<open>deepcopy\<close>: every level, every comparison and the settings object are copied to new
  addresses, the copies referring to the copies. (Python's memo table, which keeps an
  object that is referenced twice shared in the copy, is left out; an address that holds
  no object of the expected class, which a running program never has, is skipped.)
\<close>

fun deepcopy_levels :: "store \<Rightarrow> ref list \<Rightarrow> store \<times> ref list" where
  "deepcopy_levels h [] = (h, [])"
| "deepcopy_levels h (l # ls) =
     (case get_level h l of
        None \<Rightarrow> deepcopy_levels h ls
      | Some lvl \<Rightarrow>
          (case deepcopy_levels (h @ [Level lvl]) ls of (h', ls') \<Rightarrow> (h', length h # ls')))"

fun deepcopy_comparisons :: "store \<Rightarrow> ref list \<Rightarrow> store \<times> ref list" where
  "deepcopy_comparisons h [] = (h, [])"
| "deepcopy_comparisons h (c # cs) =
     (case get_comparison h c of
        None \<Rightarrow> deepcopy_comparisons h cs
      | Some cmp \<Rightarrow>
          (case deepcopy_levels h (comparison_levels cmp) of (h1, ls') \<Rightarrow>
             (case deepcopy_comparisons
                     (h1 @ [Comparison (cmp\<lparr>comparison_levels := ls'\<rparr>)]) cs of
                (h2, cs') \<Rightarrow> (h2, length h1 # cs'))))"

definition deepcopy_settings :: "store \<Rightarrow> ref \<Rightarrow> store \<times> ref" where
  "deepcopy_settings h s =
     (case get_settings h s of
        None \<Rightarrow> (h, s)
      | Some st \<Rightarrow>
          (case deepcopy_comparisons h (comparisons st) of (h1, cs') \<Rightarrow>
             (h1 @ [Settings (st\<lparr>comparisons := cs'\<rparr>)], length h1)))"

definition deepcopy_linker :: "store \<Rightarrow> linker \<Rightarrow> store \<times> linker" where
  \<comment> \<open>the copy of the linker has its own settings object\<close>
  "deepcopy_linker h lk =
     (case deepcopy_settings h (settings_obj lk) of (h', s') \<Rightarrow> (h', lk\<lparr>settings_obj := s'\<rparr>))"

text \<open>
  Modelled from the spec: \<^verbatim>\<open>append_u_probability_to_comparison_level_trained_probabilities\<close>
  is not among the sources. The spec: "Results are written back into the live
  Comparison/ComparisonLevel objects' trained-probability fields, tagged with provenance".
  The u probability comes from the lookup table by output column name and level.
\<close>

definition append_u_probability_to_comparison_level_trained_probabilities ::
  "ref \<Rightarrow> (string \<Rightarrow> int \<Rightarrow> real) \<Rightarrow> string \<Rightarrow> string \<Rightarrow> store \<Rightarrow> store" where
  "append_u_probability_to_comparison_level_trained_probabilities
     cl m_u_records_lookup output_column training_description h =
     update_level cl
       (\<lambda>lvl. lvl\<lparr>cl_trained_u_probabilities :=
                  cl_trained_u_probabilities lvl @
                  [(m_u_records_lookup output_column (cl_comparison_vector_value lvl),
                    training_description)]\<rparr>) h"

definition u_targets :: "store \<Rightarrow> ref \<Rightarrow> (string \<times> ref) list" where
  \<comment> \<open>the pairs the two nested loops at the end of \<^verbatim>\<open>estimate_u_values\<close> run through:
      the output column name of a comparison with each of its non-null levels\<close>
  "u_targets h s =
     concat (map (\<lambda>c. map (\<lambda>cl. (case get_comparison h c of
                                     Some cmp \<Rightarrow> output_column_name cmp | None \<Rightarrow> [],
                                   cl))
                         (comparison_levels_excluding_null h c))
               (comparison_refs h s))"

text \<open>
  \<^verbatim>\<open>estimate_u_values\<close>. The database enters through the rows of
  \<^verbatim>\<open>__splink__df_concat\<close> and through \<open>m_u_records\<close>, which stands for the whole of lines
  135--213: the table of u probabilities the executor computes, given the store and the
  settings of the training linker, or the exception it raises. The result is the store and
  the exception raised, if any.
\<close>

definition estimate_u_values ::
  "(store \<Rightarrow> ref \<Rightarrow> py_error + (string \<Rightarrow> int \<Rightarrow> real)) \<Rightarrow> nat \<Rightarrow> df_concat \<Rightarrow>
   store \<Rightarrow> linker \<Rightarrow> real \<Rightarrow> int option \<Rightarrow> store \<times> py_error option" where
  "estimate_u_values m_u_records cpu_count rows h lk max_pairs seed =
     (let original_settings_obj = settings_obj lk;
          (h1, training_linker) = deepcopy_linker h lk;
          settings_ref = settings_obj training_linker;
          h2 = update_settings settings_ref (\<lambda>s. s\<lparr>retain_matching_columns := False\<rparr>) h1;
          h3 = update_settings settings_ref
                 (\<lambda>s. s\<lparr>retain_intermediate_calculation_columns := False\<rparr>) h2;
          h4 = fold (\<lambda>cc hh. fold (\<lambda>cl. update_level cl (\<lambda>l. l\<lparr>cl_tf_adjustment_column := None\<rparr>))
                                 (level_refs hh cc) hh)
                 (comparison_refs h3 settings_ref) h3
      in case estimate_u_values_sample
                (case get_settings h4 settings_ref of Some s \<Rightarrow> settings_link_type s | None \<Rightarrow> [])
                rows max_pairs seed of
           Inl e \<Rightarrow> (h4, Some e)
         | Inr sample \<Rightarrow>
             (let h5 = update_settings settings_ref
                         (\<lambda>s. s\<lparr>blocking_rules_to_generate_predictions :=
                                  (if sql_dialect lk = ''duckdb'' \<and> max_pairs > 10000
                                   then [\<lparr>blocking_rule = ''1=1'',
                                          salting_partitions = cpu_count\<rparr>]
                                   else [])\<rparr>) h4
              in case m_u_records h5 settings_ref of
                   Inl e \<Rightarrow> (h5, Some e)
                 | Inr m_u_records_lookup \<Rightarrow>
                     (fold (\<lambda>(output_column, cl).
                              append_u_probability_to_comparison_level_trained_probabilities
                                cl m_u_records_lookup output_column
                                ''estimate u by random sampling'')
                        (u_targets h5 original_settings_obj) h5,
                      None)))"

section \<open>Notions used to state and prove the properties\<close>

fun pairwise_products :: "int list \<Rightarrow> int" where
  \<comment> \<open>the sum of the products of two counts at different positions\<close>
  "pairwise_products [] = 0"
| "pairwise_products (c # cs) = c * sum_list cs + pairwise_products cs"

definition filtered_edges :: "real option \<Rightarrow> edge_row list \<Rightarrow> (node_id \<times> node_id) list" where
  \<comment> \<open>the edges that pass the threshold, as pairs of node ids\<close>
  "filtered_edges threshold_match_probability edges_table =
     map (\<lambda>e. (fst e, fst (snd e)))
       (filter (\<lambda>e. case threshold_match_probability of
                       None \<Rightarrow> True
                     | Some t \<Rightarrow> snd (snd e) \<ge> t) edges_table)"

definition endpoints_in_nodes :: "node_id list \<Rightarrow> (node_id \<times> node_id) list \<Rightarrow> bool" where
  \<comment> \<open>every edge joins two nodes of the node table\<close>
  "endpoints_in_nodes nodes_table es =
     (\<forall>e \<in> set es. fst e \<in> set nodes_table \<and> snd e \<in> set nodes_table)"

definition joined_by_path :: "(node_id \<times> node_id) list \<Rightarrow> node_id \<Rightarrow> node_id \<Rightarrow> bool" where
  \<comment> \<open>a path of edges, each walked in either direction, leads from \<open>a\<close> to \<open>b\<close>\<close>
  "joined_by_path es a b = ((a, b) \<in> (set es \<union> (set es)\<inverse>)\<^sup>*)"

definition nbrs :: "neighbour_row list \<Rightarrow> node_id \<Rightarrow> node_id set" where
  "nbrs neighbours n = {m. (n, Some m) \<in> set neighbours}"

definition table_of :: "node_id set \<Rightarrow> (node_id \<Rightarrow> node_id) \<Rightarrow> (node_id \<Rightarrow> bool) \<Rightarrow> representative_row set" where
  \<comment> \<open>the rows of a representatives table without NULLs: node, representative, rep\_match\<close>
  "table_of S rep rm = (\<lambda>n. (n, Some (rep n), Some (rm n))) ` S"

definition neighbours_wf :: "neighbour_row list \<Rightarrow> bool" where
  \<comment> \<open>no NULL neighbour, and every node of the table is its own neighbour\<close>
  "neighbours_wf neighbours =
     ((\<forall>row \<in> set neighbours. snd row \<noteq> None) \<and>
      (\<forall>n \<in> fst ` set neighbours. (n, Some n) \<in> set neighbours))"

definition min_opt :: "int set \<Rightarrow> int option" where
  "min_opt A = (if A = {} then None else Some (Min A))"

definition initial_rep :: "neighbour_row list \<Rightarrow> node_id \<Rightarrow> node_id" where
  \<comment> \<open>the representative in table \<^verbatim>\<open>representatives\<close>: the least neighbour\<close>
  "initial_rep neighbours n = Min (nbrs neighbours n)"

definition first_iter_rep :: "neighbour_row list \<Rightarrow> node_id \<Rightarrow> node_id" where
  \<comment> \<open>the representative in \<^verbatim>\<open>neighbours_first_iter\<close>: the least representative of a neighbour\<close>
  "first_iter_rep neighbours n =
     Min (initial_rep neighbours ` (nbrs neighbours n \<inter> fst ` set neighbours))"

definition next_rep ::
  "neighbour_row list \<Rightarrow> node_id set \<Rightarrow> (node_id \<Rightarrow> node_id) \<Rightarrow> (node_id \<Rightarrow> bool) \<Rightarrow>
   node_id \<Rightarrow> node_id" where
  \<comment> \<open>the representative table \<^verbatim>\<open>r\<close> gives a node: the least representative among its
      neighbours flagged rep\_match, and its own when it is not flagged\<close>
  "next_rep neighbours S rep rm n =
     Min (rep ` {m \<in> nbrs neighbours n \<inter> S. rm m} \<union> (if rm n then {} else {rep n}))"

definition stable_rep ::
  "neighbour_row list \<Rightarrow> node_id set \<Rightarrow> (node_id \<Rightarrow> node_id) \<Rightarrow> node_id \<Rightarrow> bool" where
  \<comment> \<open>the nodes with representative \<open>c\<close> are exactly the neighbours of those nodes\<close>
  "stable_rep neighbours S rep c =
     ({n \<in> S. rep n = c} = (\<Union>n \<in> {n \<in> S. rep n = c}. nbrs neighbours n))"

definition lower_bound :: "neighbour_row list \<Rightarrow> int" where
  \<comment> \<open>a value no representative can go below\<close>
  "lower_bound neighbours = Min (insert 0 ((\<lambda>row. the (snd row)) ` set neighbours))"

definition table_weight :: "neighbour_row list \<Rightarrow> representative_row list \<Rightarrow> nat" where
  "table_weight neighbours table =
     (\<Sum>row \<in> set table. nat (the (fst (snd row)) - lower_bound neighbours) + 1)"

definition cc_measure :: "neighbour_row list \<Rightarrow> cc_state \<Rightarrow> nat" where
  "cc_measure neighbours st =
     2 * table_weight neighbours (prev_representatives_table st) +
     (if root_rows_count st > 0 then 1 else 0)"

definition cc_invariant :: "neighbour_row list \<Rightarrow> cc_state \<Rightarrow> bool" where
  \<comment> \<open>what every state of the loop satisfies, whatever the edges\<close>
  "cc_invariant neighbours st =
     (\<exists>S rep rm.
        set (prev_representatives_table st) = table_of S rep rm \<and>
        distinct (map fst (prev_representatives_table st)) \<and>
        S \<subseteq> fst ` set neighbours \<and>
        (\<forall>n m. (n, Some m) \<in> set neighbours \<and> m \<in> S \<longrightarrow> n \<in> S) \<and>
        (\<forall>n \<in> S. lower_bound neighbours \<le> rep n))"

definition component :: "neighbour_row list \<Rightarrow> node_id \<Rightarrow> node_id set" where
  \<comment> \<open>the nodes reached from \<open>n\<close> along rows of the neighbours table\<close>
  "component neighbours n = {m. (n, m) \<in> {(a, b). (a, Some b) \<in> set neighbours}\<^sup>*}"

definition neighbours_symmetric :: "neighbour_row list \<Rightarrow> bool" where
  "neighbours_symmetric neighbours =
     (\<forall>n m. (n, Some m) \<in> set neighbours \<longrightarrow> (m, Some n) \<in> set neighbours)"

definition cc_invariant_clusters :: "neighbour_row list \<Rightarrow> cc_state \<Rightarrow> bool" where
  \<comment> \<open>what every state of the loop satisfies when the neighbours table is symmetric\<close>
  "cc_invariant_clusters neighbours st =
     (\<exists>S rep rm.
        set (prev_representatives_table st) = table_of S rep rm \<and>
        distinct (map fst (prev_representatives_table st)) \<and>
        S \<subseteq> fst ` set neighbours \<and>
        (\<forall>n \<in> S. nbrs neighbours n \<subseteq> S) \<and>
        (\<forall>n \<in> S. rep n \<in> component neighbours n \<and> rep n \<le> n) \<and>
        (\<forall>n \<in> S. \<forall>m \<in> nbrs neighbours n. \<not> rm m \<longrightarrow> rep n \<le> rep m) \<and>
        distinct (map fst (concat (converged_repr_tables st))) \<and>
        fst ` set (concat (converged_repr_tables st)) = fst ` set neighbours - S \<and>
        (\<forall>row \<in> set (concat (converged_repr_tables st)).
           fst (snd row) = Some (Min (component neighbours (fst row)))))"

text \<open>
  The path \<open>9 - 8 - 4 - 5 - 7 - 3\<close> with node \<open>6\<close> attached to \<open>4\<close>: the graph used to show that
  the rep\_match count can rise from one pass of the loop to the next.
\<close>

definition rising_count_neighbours :: "neighbour_row list" where
  "rising_count_neighbours =
     cc_neighbours [3, 4, 5, 6, 7, 8, 9]
       [(4, 8, 1), (5, 4, 1), (5, 7, 1), (6, 4, 1), (7, 3, 1), (8, 9, 1)] None"

definition settings_in_store :: "store \<Rightarrow> ref \<Rightarrow> bool" where
  \<comment> \<open>the typing of the objects: the reference points to a settings object, whose
      comparisons are comparison objects, whose levels are level objects\<close>
  "settings_in_store h s =
     (case get_settings h s of
        None \<Rightarrow> False
      | Some st \<Rightarrow>
          (\<forall>c \<in> set (comparisons st).
             case get_comparison h c of
               None \<Rightarrow> False
             | Some cmp \<Rightarrow> (\<forall>l \<in> set (comparison_levels cmp). get_level h l \<noteq> None)))"

definition closed_above :: "nat \<Rightarrow> store \<Rightarrow> bool" where
  \<comment> \<open>the objects from address \<open>n\<close> on refer only to objects from address \<open>n\<close> on\<close>
  "closed_above n h =
     (\<forall>a. n \<le> a \<and> a < length h \<longrightarrow>
        (case h ! a of
           Settings st \<Rightarrow> \<forall>c \<in> set (comparisons st). n \<le> c
         | Comparison cmp \<Rightarrow> \<forall>l \<in> set (comparison_levels cmp). n \<le> l
         | Level lvl \<Rightarrow> True))"

text \<open>
  A small store: a null level and a non-null level, the comparison they belong to, and the
  settings object of a linker.
\<close>

definition example_store :: store where
  "example_store =
     [Level \<lparr>cl_is_null_level = True, cl_comparison_vector_value = - 1,
             cl_tf_adjustment_column = Some ''first_name'', cl_m_probability = None,
             cl_trained_u_probabilities = []\<rparr>,
      Level \<lparr>cl_is_null_level = False, cl_comparison_vector_value = 1,
             cl_tf_adjustment_column = Some ''first_name'', cl_m_probability = Some 0.9,
             cl_trained_u_probabilities = []\<rparr>,
      Comparison \<lparr>output_column_name = ''first_name'', comparison_levels = [0, 1]\<rparr>,
      Settings \<lparr>settings_link_type = ''dedupe_only'', retain_matching_columns = True,
                retain_intermediate_calculation_columns = True,
                blocking_rules_to_generate_predictions =
                  [\<lparr>blocking_rule = ''l.surname = r.surname'', salting_partitions = 1\<rparr>],
                comparisons = [2]\<rparr>]"

section \<open>Proofs: the size of the random sample\<close>

lemma count_by_source_dataset_single:
  assumes "set rows \<subseteq> {Some d}"
  shows "count_by_source_dataset rows = (if rows = [] then [] else [int (length rows)])"
proof -
  have f: "filter (\<lambda>v. v = Some d \<and> v \<noteq> None) rows = rows"
    using assms by (induction rows) auto
  have r: "remdups rows = (if rows = [] then [] else [Some d])"
    using assms by (induction rows) (auto simp: neq_Nil_conv)
  show ?thesis unfolding count_by_source_dataset_def r using f by simp
qed

text \<open>
  The comment in \<^verbatim>\<open>_proportion_sample_size_link_only\<close>: the numerator of
  \<^verbatim>\<open>total_links\<close> is twice the sum of the products of the counts of two different frames.
\<close>

lemma square_of_sum_minus_squares:
  "(sum_list cs)\<^sup>2 - sum_list (map (\<lambda>c. c\<^sup>2) cs) = 2 * pairwise_products cs"
  by (induction cs) (simp_all add: power2_eq_square algebra_simps)

text \<open>
  Claim C5. For \<open>max_pairs > 0\<close> and the link types \<open>dedupe_only\<close> and
  \<open>link_and_dedupe\<close>, the sample size is \<open>r = 0.5 * (sqrt (8 * max_pairs + 1) + 1)\<close>, the
  one positive solution of \<open>r (r - 1) / 2 = max_pairs\<close>, and the proportion is \<open>r\<close> divided
  by the row count \<open>N\<close> of the concatenated input (with no rows the division raises).
\<close>

theorem dedupe_sample_rows_closed_form:
  assumes "0 < max_pairs"
    and "link_type = ''dedupe_only'' \<or> link_type = ''link_and_dedupe''"
  shows "let r = 0.5 * (sqrt (8 * max_pairs + 1) + 1) in
     rows_needed_for_n_pairs max_pairs = Inr r \<and> 0 < r \<and> r * (r - 1) / 2 = max_pairs \<and>
     (\<forall>x. 0 < x \<and> x * (x - 1) / 2 = max_pairs \<longrightarrow> x = r) \<and>
     sample_parameters link_type rows max_pairs =
       (if rows = [] then Inl ZeroDivisionError
        else Inr (r / real (length rows), r, int (length rows)))"
proof -
  define s where "s = sqrt (8 * max_pairs + 1)"
  define r where "r = 0.5 * (s + 1)"
  have s1: "1 < s" unfolding s_def using assms(1) by (simp add: real_less_rsqrt)
  have ss: "s * s = 8 * max_pairs + 1" unfolding s_def using assms(1) by simp
  have rn: "rows_needed_for_n_pairs max_pairs = Inr r"
    using assms(1) by (simp add: rows_needed_for_n_pairs_def py_sqrt_pow_def r_def s_def)
  have rpos: "0 < r" unfolding r_def using s1 by simp
  have "r * (r - 1) / 2 = (s * s - 1) / 8" unfolding r_def by (simp add: algebra_simps)
  hence eq: "r * (r - 1) / 2 = max_pairs" using ss by simp
  have uniq: "x = r" if "0 < x" "x * (x - 1) / 2 = max_pairs" for x
  proof -
    have "(2 * x - 1) * (2 * x - 1) = s * s" using that(2) ss by (simp add: algebra_simps)
    hence "(2 * x - 1)\<^sup>2 = s\<^sup>2" by (simp add: power2_eq_square)
    hence "\<bar>2 * x - 1\<bar> = \<bar>s\<bar>" by (simp add: power2_eq_iff abs_eq_iff)
    hence "2 * x - 1 = s" using s1 that(1) by linarith
    thus ?thesis unfolding r_def by simp
  qed
  have sp: "sample_parameters link_type rows max_pairs =
       (if rows = [] then Inl ZeroDivisionError
        else Inr (r / real (length rows), r, int (length rows)))"
    using assms(2) rn by (auto simp: sample_parameters_def count_star_def)
  show ?thesis using rn rpos eq uniq sp unfolding Let_def r_def s_def by blast
qed

theorem dedupe_sample_rows_closed_form_witness:
  "(0::real) < 1 \<and> rows_needed_for_n_pairs 1 = Inr 2 \<and>
   sample_parameters ''dedupe_only'' [None, None, None] 1 = Inr (2 / 3, 2, 3)"
  using dedupe_sample_rows_closed_form [of 1 "''dedupe_only''" "[None, None, None]"]
  by (simp add: Let_def)

text \<open>
  Claim C6. For frame row counts \<open>cs\<close>, \<^verbatim>\<open>_proportion_sample_size_link_only\<close> computes
  \<open>total_links = ((\<Sum>cs)\<^sup>2 - \<Sum>cs\<^sup>2) / 2\<close> (the sum of the products of the counts of two
  different frames), \<open>proportion = sqrt (max_pairs / total_links)\<close> and
  \<open>sample_size = proportion * \<Sum>cs\<close>; a zero \<open>total_links\<close> raises and a negative quotient
  leaves the reals. In the \<open>link_only\<close> branch \<^verbatim>\<open>estimate_u_values\<close> takes the counts from
  the grouped count query and the total row count as their sum.
\<close>

theorem link_only_proportion_sample_size:
  "(let total_n = sum_list cs;
        total_links = real_of_int (total_n\<^sup>2 - sum_list (map (\<lambda>c. c\<^sup>2) cs)) / 2;
        proportion = sqrt (max_pairs / total_links);
        sample_size = proportion * real_of_int total_n
    in total_links = real_of_int (pairwise_products cs) \<and>
       proportion_sample_size_link_only cs max_pairs =
         (if total_links = 0 then Inl ZeroDivisionError
          else if max_pairs / total_links < 0 then Inl Complex_result
          else Inr (proportion, sample_size))) \<and>
   (let frame_counts = count_by_source_dataset rows;
        total_n = sum_list frame_counts;
        total_links =
          real_of_int (total_n\<^sup>2 - sum_list (map (\<lambda>c. c\<^sup>2) frame_counts)) / 2;
        proportion = sqrt (max_pairs / total_links);
        sample_size = proportion * real_of_int total_n
    in sample_parameters ''link_only'' rows max_pairs =
         (if total_links = 0 then Inl ZeroDivisionError
          else if max_pairs / total_links < 0 then Inl TypeError
          else Inr (proportion, sample_size, total_n)))"
proof -
  have links: "real_of_int ((sum_list xs)\<^sup>2 - sum_list (map (\<lambda>c. c\<^sup>2) xs)) / 2 =
               real_of_int (pairwise_products xs)" for xs
    by (simp add: square_of_sum_minus_squares)
  have helper: "proportion_sample_size_link_only xs max_pairs =
      (let total_links = real_of_int ((sum_list xs)\<^sup>2 - sum_list (map (\<lambda>c. c\<^sup>2) xs)) / 2 in
       if total_links = 0 then Inl ZeroDivisionError
       else if max_pairs / total_links < 0 then Inl Complex_result
       else Inr (sqrt (max_pairs / total_links),
                 sqrt (max_pairs / total_links) * real_of_int (sum_list xs)))" for xs
    unfolding proportion_sample_size_link_only_def Let_def py_truediv_def py_sqrt_pow_def
    by simp
  have second: "sample_parameters ''link_only'' rows max_pairs =
      (case proportion_sample_size_link_only (count_by_source_dataset rows) max_pairs of
         Inl Complex_result \<Rightarrow> Inl TypeError
       | Inl e \<Rightarrow> Inl e
       | Inr (proportion, sample_size) \<Rightarrow>
           Inr (proportion, sample_size, sum_list (count_by_source_dataset rows)))"
    by (simp add: sample_parameters_def Let_def)
  have third: "sample_parameters ''link_only'' rows max_pairs =
      (let xs = count_by_source_dataset rows;
           total_links = real_of_int ((sum_list xs)\<^sup>2 - sum_list (map (\<lambda>c. c\<^sup>2) xs)) / 2 in
       if total_links = 0 then Inl ZeroDivisionError
       else if max_pairs / total_links < 0 then Inl TypeError
       else Inr (sqrt (max_pairs / total_links),
                 sqrt (max_pairs / total_links) * real_of_int (sum_list xs), sum_list xs))"
    unfolding second helper[of "count_by_source_dataset rows"] Let_def
    by (simp only: sum.case py_error.case prod.case if_distrib[of "case_sum _ _"] split: if_splits)
  show ?thesis
    unfolding Let_def
    using links[of cs] helper[of cs, unfolded Let_def] third[unfolded Let_def]
    by blast
qed

text \<open>
  Claim C7. Whatever proportion \<open>p\<close>, sample size \<open>s\<close> and row count \<open>total_nodes\<close> lines
  84--115 compute, \<^verbatim>\<open>estimate_u_values\<close> samples with proportion exactly 1 and without a
  sampling clause (the full data) when \<open>p \<ge> 1\<close>, and with \<open>p\<close> unchanged when \<open>p < 1\<close>; with
  sample size \<open>total_nodes\<close> when \<open>s > total_nodes\<close>, and with \<open>s\<close> unchanged otherwise.
\<close>

theorem proportion_and_sample_size_clamped:
  assumes "sample_parameters link_type rows max_pairs = Inr (p, s, total_nodes)"
  shows "estimate_u_values_sample link_type rows max_pairs seed =
     Inr (if p \<ge> 1 then 1 else p,
          if s > real_of_int total_nodes then real_of_int total_nodes else s,
          if p \<ge> 1 then Full_data
          else Random_sample p
                 (if s > real_of_int total_nodes then real_of_int total_nodes else s) seed)"
  using assms
  by (simp add: estimate_u_values_sample_def clamp_sample_def random_sample_sql_def)

theorem proportion_and_sample_size_clamped_witness:
  "sample_parameters ''link_only'' [Some ''a'', Some ''b'', Some ''b''] 8 = Inr (2, 6, 3) \<and>
   estimate_u_values_sample ''link_only'' [Some ''a'', Some ''b'', Some ''b''] 8 None =
     Inr (1, 3, Full_data)"
proof -
  have h: "sample_parameters ''link_only'' [Some ''a'', Some ''b'', Some ''b''] 8 = Inr (2, 6, 3)"
    by (simp add: sample_parameters_def count_by_source_dataset_def
        proportion_sample_size_link_only_def py_sqrt_pow_def py_truediv_def)
  show ?thesis using h proportion_and_sample_size_clamped [OF h, of None] by simp
qed

section \<open>Proofs: furnishing levels with m and u probabilities\<close>

lemma configure_levels_total:
  assumes "\<And>v cl. is_null_level (conf v cl) = is_null_level cl"
    and "length (filter (\<lambda>cl. \<not> is_null_level cl) cls) \<le> length values"
  shows "\<exists>lvls. configure_levels conf cls values = Inr lvls \<and>
           map is_null_level lvls = map is_null_level cls"
  using assms(2)
proof (induction cls arbitrary: "values")
  case Nil
  then show ?case by simp
next
  case (Cons cl cls)
  show ?case
  proof (cases "is_null_level cl")
    case True
    with Cons.prems have "length (filter (\<lambda>cl. \<not> is_null_level cl) cls) \<le> length values" by simp
    from Cons.IH[OF this] obtain lvls where
      "configure_levels conf cls values = Inr lvls" "map is_null_level lvls = map is_null_level cls"
      by blast
    with True show ?thesis by (simp add: assms(1))
  next
    case False
    with Cons.prems obtain v rest where vs: "values = v # rest"
      by (cases "values") auto
    with False Cons.prems have "length (filter (\<lambda>cl. \<not> is_null_level cl) cls) \<le> length rest" by simp
    from Cons.IH[OF this] obtain lvls where
      "configure_levels conf cls rest = Inr lvls" "map is_null_level lvls = map is_null_level cls"
      by blast
    with False vs show ?thesis by (simp add: assms(1))
  qed
qed

lemma configure_levels_assigned:
  assumes "\<And>v cl. is_null_level (conf v cl) = is_null_level cl"
    and "\<And>v cl. g (conf v cl) = v"
    and "configure_levels conf cls values = Inr lvls"
  shows "map g (filter (\<lambda>cl. \<not> is_null_level cl) lvls) =
           map Some (take (length (filter (\<lambda>cl. \<not> is_null_level cl) cls)) values) \<and>
         (\<forall>cl \<in> set lvls. is_null_level cl \<longrightarrow> g cl = None)"
  using assms(3)
proof (induction cls arbitrary: "values" lvls)
  case Nil
  then show ?case by simp
next
  case (Cons cl cls)
  show ?case
  proof (cases "is_null_level cl")
    case True
    with Cons.prems obtain rest_lvls where
      r: "configure_levels conf cls values = Inr rest_lvls" "lvls = conf None cl # rest_lvls"
      by (auto split: sum.splits)
    from Cons.IH[OF r(1)] True r(2) show ?thesis by (simp add: assms(1,2))
  next
    case False
    with Cons.prems obtain v rest rest_lvls where
      r: "values = v # rest" "configure_levels conf cls rest = Inr rest_lvls"
         "lvls = conf (Some v) cl # rest_lvls"
      by (auto split: sum.splits list.splits)
    from Cons.IH[OF r(2)] False r(1,3) show ?thesis by (simp add: assms(1,2))
  qed
qed

lemma configure_levels_frame:
  assumes "\<And>v cl. h (conf v cl) = h cl"
    and "configure_levels conf cls values = Inr lvls"
  shows "map h lvls = map h cls"
  using assms(2)
proof (induction cls arbitrary: "values" lvls)
  case Nil
  then show ?case by simp
next
  case (Cons cl cls)
  then show ?case
    by (auto simp: assms(1) split: sum.splits list.splits if_splits)
qed

lemma configure_keeps_configured_by_setters:
  assumes "configured_by_setters cc" and "configure cc m u = Inr cc'"
  shows "configured_by_setters cc' \<and> create_comparison_levels cc' = create_comparison_levels cc"
  using assms
  by (auto simp: configure_def set_m_probabilities_def set_u_probabilities_def
      configured_by_setters_def num_non_null_levels_def truthy_def
      split: sum.splits if_splits option.splits)

text \<open>
  Claim C9. For a creator whose probability lists went through the setters,
  \<^verbatim>\<open>get_configured_comparison_levels\<close> returns the levels with their null flags as
  created; when a list of m (or u) probabilities is configured, every null level has
  m (or u) probability \<open>None\<close> and the non-null levels carry the supplied values in order.
\<close>

theorem null_levels_never_configured:
  assumes "configured_by_setters cc"
  shows "\<exists>lvls. get_configured_comparison_levels cc = Inr lvls \<and>
     map is_null_level lvls = map is_null_level (create_comparison_levels cc) \<and>
     (case m_probabilities cc of
        None \<Rightarrow> map m_probability lvls = map m_probability (create_comparison_levels cc)
      | Some ms \<Rightarrow>
          (\<forall>cl \<in> set lvls. is_null_level cl \<longrightarrow> m_probability cl = None) \<and>
          map m_probability (filter (\<lambda>cl. \<not> is_null_level cl) lvls) = map Some ms) \<and>
     (case u_probabilities cc of
        None \<Rightarrow> map u_probability lvls = map u_probability (create_comparison_levels cc)
      | Some us \<Rightarrow>
          (\<forall>cl \<in> set lvls. is_null_level cl \<longrightarrow> u_probability cl = None) \<and>
          map u_probability (filter (\<lambda>cl. \<not> is_null_level cl) lvls) = map Some us)"
proof -
  let ?cls = "create_comparison_levels cc"
  let ?nn = "\<lambda>cl. \<not> is_null_level cl"
  define step1 where "step1 =
    (if truthy (m_probabilities cc)
     then configure_levels configure_m_probability ?cls (the (m_probabilities cc))
     else Inr ?cls)"
  have pm: "\<And>v cl. is_null_level (configure_m_probability v cl) = is_null_level cl"
    and gm: "\<And>v cl. m_probability (configure_m_probability v cl) = v"
    and um: "\<And>v cl. u_probability (configure_m_probability v cl) = u_probability cl"
    by (simp_all add: configure_m_probability_def)
  have pu: "\<And>v cl. is_null_level (configure_u_probability v cl) = is_null_level cl"
    and gu: "\<And>v cl. u_probability (configure_u_probability v cl) = v"
    and mu: "\<And>v cl. m_probability (configure_u_probability v cl) = m_probability cl"
    by (simp_all add: configure_u_probability_def)
  \<comment> \<open>the pass over the m probabilities\<close>
  have "\<exists>l1. step1 = Inr l1 \<and> map is_null_level l1 = map is_null_level ?cls \<and>
          map u_probability l1 = map u_probability ?cls \<and>
          (case m_probabilities cc of
             None \<Rightarrow> map m_probability l1 = map m_probability ?cls
           | Some ms \<Rightarrow> (\<forall>cl \<in> set l1. is_null_level cl \<longrightarrow> m_probability cl = None) \<and>
                map m_probability (filter ?nn l1) = map Some ms)"
  proof (cases "m_probabilities cc")
    case None
    then show ?thesis by (simp add: step1_def truthy_def)
  next
    case (Some ms)
    with assms have len: "ms \<noteq> []" "length ms = length (filter ?nn ?cls)"
      by (simp_all add: configured_by_setters_def num_non_null_levels_def)
    then obtain l1 where l1: "configure_levels configure_m_probability ?cls ms = Inr l1"
      "map is_null_level l1 = map is_null_level ?cls"
      using configure_levels_total[of configure_m_probability ?cls ms, OF pm] by auto
    from configure_levels_assigned[of configure_m_probability m_probability, OF pm gm l1(1)] len
    have "(\<forall>cl \<in> set l1. is_null_level cl \<longrightarrow> m_probability cl = None) \<and>
          map m_probability (filter ?nn l1) = map Some ms" by simp
    moreover from configure_levels_frame[of u_probability configure_m_probability, OF um l1(1)]
    have "map u_probability l1 = map u_probability ?cls" .
    ultimately show ?thesis using Some len l1 by (simp add: step1_def truthy_def)
  qed
  then obtain l1 where l1: "step1 = Inr l1" "map is_null_level l1 = map is_null_level ?cls"
    "map u_probability l1 = map u_probability ?cls"
    "(case m_probabilities cc of
             None \<Rightarrow> map m_probability l1 = map m_probability ?cls
           | Some ms \<Rightarrow> (\<forall>cl \<in> set l1. is_null_level cl \<longrightarrow> m_probability cl = None) \<and>
                map m_probability (filter ?nn l1) = map Some ms)" by blast
  have res: "get_configured_comparison_levels cc =
      (if truthy (u_probabilities cc)
       then configure_levels configure_u_probability l1 (the (u_probabilities cc))
       else Inr l1)"
    using l1(1) by (simp add: get_configured_comparison_levels_def step1_def)
  have nn_eq: "length (filter ?nn l1) = length (filter ?nn ?cls)"
  proof -
    have "length (filter ?nn l1) = length (filter Not (map is_null_level l1))"
      by (simp add: filter_map comp_def)
    also have "\<dots> = length (filter Not (map is_null_level ?cls))" using l1(2) by simp
    also have "\<dots> = length (filter ?nn ?cls)" by (simp add: filter_map comp_def)
    finally show ?thesis .
  qed
  show ?thesis
  proof (cases "u_probabilities cc")
    case None
    with res l1 show ?thesis by (simp add: truthy_def)
  next
    case (Some us)
    with assms have len: "us \<noteq> []" "length us = length (filter ?nn l1)"
      by (simp_all add: configured_by_setters_def num_non_null_levels_def nn_eq)
    then obtain l2 where l2: "configure_levels configure_u_probability l1 us = Inr l2"
      "map is_null_level l2 = map is_null_level l1"
      using configure_levels_total[of configure_u_probability l1 us, OF pu] by auto
    from configure_levels_assigned[of configure_u_probability u_probability, OF pu gu l2(1)] len
    have u_ok: "(\<forall>cl \<in> set l2. is_null_level cl \<longrightarrow> u_probability cl = None) \<and>
          map u_probability (filter ?nn l2) = map Some us" by simp
    from configure_levels_frame[of m_probability configure_u_probability, OF mu l2(1)]
    have m_same: "map m_probability l2 = map m_probability l1" .
    have both: "map (\<lambda>cl. (is_null_level cl, m_probability cl)) l2 =
                map (\<lambda>cl. (is_null_level cl, m_probability cl)) l1"
      using l2(2) m_same by (simp add: list_eq_iff_nth_eq)
    have m_ok: "(case m_probabilities cc of
             None \<Rightarrow> map m_probability l2 = map m_probability ?cls
           | Some ms \<Rightarrow> (\<forall>cl \<in> set l2. is_null_level cl \<longrightarrow> m_probability cl = None) \<and>
                map m_probability (filter ?nn l2) = map Some ms)"
    proof (cases "m_probabilities cc")
      case None
      with l1(4) m_same show ?thesis by simp
    next
      case (Some ms)
      have f: "map m_probability (filter ?nn l) =
               map snd (filter (\<lambda>p. \<not> fst p) (map (\<lambda>cl. (is_null_level cl, m_probability cl)) l))" for l
        by (induction l) auto
      have a: "map m_probability (filter ?nn l2) = map m_probability (filter ?nn l1)"
        by (simp only: f both)
      have "(is_null_level cl, m_probability cl) \<in> set (map (\<lambda>cl. (is_null_level cl, m_probability cl)) l1)"
        if "cl \<in> set l2" for cl
        using that both[symmetric] by (metis (mono_tags, lifting) image_eqI list.set_map)
      hence b: "\<forall>cl \<in> set l2. is_null_level cl \<longrightarrow> m_probability cl = None"
        using l1(4) Some by fastforce
      show ?thesis using Some a b l1(4) by simp
    qed
    show ?thesis using res Some len l2 u_ok m_ok l1(2) by (simp add: truthy_def)
  qed
qed


theorem null_levels_never_configured_witness:
  "configured_by_setters
     \<lparr>create_comparison_levels =
        [\<lparr>is_null_level = True, m_probability = Some 0.5, u_probability = None\<rparr>,
         \<lparr>is_null_level = False, m_probability = None, u_probability = None\<rparr>,
         \<lparr>is_null_level = False, m_probability = None, u_probability = None\<rparr>],
      m_probabilities = Some [0.9, 0.1], u_probabilities = None\<rparr> \<and>
   get_configured_comparison_levels
     \<lparr>create_comparison_levels =
        [\<lparr>is_null_level = True, m_probability = Some 0.5, u_probability = None\<rparr>,
         \<lparr>is_null_level = False, m_probability = None, u_probability = None\<rparr>,
         \<lparr>is_null_level = False, m_probability = None, u_probability = None\<rparr>],
      m_probabilities = Some [0.9, 0.1], u_probabilities = None\<rparr> =
   Inr [\<lparr>is_null_level = True, m_probability = None, u_probability = None\<rparr>,
        \<lparr>is_null_level = False, m_probability = Some 0.9, u_probability = None\<rparr>,
        \<lparr>is_null_level = False, m_probability = Some 0.1, u_probability = None\<rparr>]"
proof -
  let ?cc = "\<lparr>create_comparison_levels =
        [\<lparr>is_null_level = True, m_probability = Some 0.5, u_probability = None\<rparr>,
         \<lparr>is_null_level = False, m_probability = None, u_probability = None\<rparr>,
         \<lparr>is_null_level = False, m_probability = None, u_probability = None\<rparr>],
      m_probabilities = Some [0.9, 0.1], u_probabilities = None\<rparr>"
  have h: "configured_by_setters ?cc"
    by (simp add: configured_by_setters_def num_non_null_levels_def)
  have e: "get_configured_comparison_levels ?cc =
     Inr [\<lparr>is_null_level = True, m_probability = None, u_probability = None\<rparr>,
        \<lparr>is_null_level = False, m_probability = Some 0.9, u_probability = None\<rparr>,
        \<lparr>is_null_level = False, m_probability = Some 0.1, u_probability = None\<rparr>]"
    by (simp add: get_configured_comparison_levels_def truthy_def configure_m_probability_def)
  from null_levels_never_configured [OF h] e h show ?thesis by simp
qed


section \<open>Proofs: connected components\<close>

subsection \<open>The relational operators on lists of rows\<close>

lemma set_left_join:
  "set (left_join xs ys on) =
     {(x, Some y) | x y. x \<in> set xs \<and> y \<in> set ys \<and> on x y} \<union>
     {(x, None) | x. x \<in> set xs \<and> (\<forall>y \<in> set ys. \<not> on x y)}"
  unfolding left_join_def set_concat set_map Let_def
  by (auto simp: filter_empty_conv split: if_splits)

lemma set_inner_join:
  "set (inner_join xs ys on) = {(x, y). x \<in> set xs \<and> y \<in> set ys \<and> on x y}"
  by (auto simp: inner_join_def)

lemma set_sql_union [simp]: "set (sql_union xs ys) = set xs \<union> set ys"
  by (simp add: sql_union_def)

lemma distinct_sql_union [simp]: "distinct (sql_union xs ys)"
  by (simp add: sql_union_def)

lemma map_fst_group_by: "map fst (group_by key xs) = remdups (map key xs)"
  by (simp add: group_by_def comp_def)

lemma set_group_by:
  "set (group_by key xs) = (\<lambda>k. (k, filter (\<lambda>x. key x = k) xs)) ` key ` set xs"
  by (simp add: group_by_def)

lemma set_non_null [simp]: "set (non_null vs) = {v. Some v \<in> set vs}"
  by (force simp: non_null_def image_iff)

lemma sql_min_eq:
  "sql_min vs = (if {v. Some v \<in> set vs} = {} then None else Some (Min {v. Some v \<in> set vs}))"
proof (cases "non_null vs")
  case Nil
  have "set (non_null vs) = {}" unfolding Nil by simp
  then have "{v. Some v \<in> set vs} = {}" by simp
  then show ?thesis using Nil by (simp add: sql_min_def)
next
  case (Cons w ws)
  have s: "{v. Some v \<in> set vs} = set (w # ws)" unfolding Cons[symmetric] by simp
  have "fold min ws w = Min (set (w # ws))" by (rule Min.set_eq_fold[symmetric])
  then show ?thesis unfolding s sql_min_def Cons by simp
qed

lemma distinct_map_fst_sort_key:
  "distinct (map fst (sort_key fst xs)) = distinct (map fst xs)"
  by (simp add: distinct_map)

lemma filter_key_unique:
  assumes "distinct (map fst ys)" and "y \<in> set ys"
  shows "filter (\<lambda>z. fst z = fst y) ys = [y]"
  using assms
proof (induction ys)
  case Nil
  then show ?case by simp
next
  case (Cons a ys)
  show ?case
  proof (cases "a = y")
    case True
    with Cons.prems have "\<forall>z \<in> set ys. fst z \<noteq> fst y" by (auto simp: image_iff)
    then have "filter (\<lambda>z. fst z = fst y) ys = []" by (simp add: filter_empty_conv)
    with True show ?thesis by simp
  next
    case False
    with Cons.prems have y: "y \<in> set ys" and d: "distinct (map fst ys)" by auto
    from Cons.prems y have "fst a \<noteq> fst y" by (auto simp: image_iff)
    with Cons.IH[OF d y] show ?thesis by simp
  qed
qed

lemma left_join_on_key:
  assumes "distinct (map fst ys)" and "\<forall>x \<in> set xs. \<exists>y \<in> set ys. fst y = k x"
  shows "left_join xs ys (\<lambda>x y. k x = fst y) =
         map (\<lambda>x. (x, Some (THE y. y \<in> set ys \<and> fst y = k x))) xs"
proof -
  have "(let ms = filter (\<lambda>y. k x = fst y) ys
         in if ms = [] then [(x, None)] else map (\<lambda>y. (x, Some y)) ms)
        = [(x, Some (THE y. y \<in> set ys \<and> fst y = k x))]" if "x \<in> set xs" for x
  proof -
    from that assms(2) obtain y where y: "y \<in> set ys" "fst y = k x" by blast
    have u: "(THE y. y \<in> set ys \<and> fst y = k x) = y"
    proof (rule the_equality)
      show "y \<in> set ys \<and> fst y = k x" using y by simp
    next
      fix z assume "z \<in> set ys \<and> fst z = k x"
      with y assms(1) show "z = y" by (metis eq_key_imp_eq_value prod.collapse)
    qed
    have "filter (\<lambda>z. k x = fst z) ys = filter (\<lambda>z. fst z = fst y) ys"
      using y by (intro filter_cong) auto
    also have "\<dots> = [y]" by (rule filter_key_unique[OF assms(1) y(1)])
    finally show ?thesis using u by simp
  qed
  then show ?thesis unfolding left_join_def
    by (induction xs) auto
qed

subsection \<open>The neighbours table\<close>

lemma set_splink_edges:
  "set (splink_edges t edges_table nodes_table) =
     set (filtered_edges t edges_table) \<union> (\<lambda>n. (n, n)) ` set nodes_table"
  by (simp add: splink_edges_def filtered_edges_def)

lemma set_cc_generate_neighbours_representation:
  "set (cc_generate_neighbours_representation nodes edges) =
     {(n, Some r) | n r. n \<in> set nodes \<and> (n, r) \<in> set edges} \<union>
     {(n, None) | n. n \<in> set nodes \<and> (\<forall>e \<in> set edges. fst e \<noteq> n)} \<union>
     ({(n, Some l) | n l. n \<in> set nodes \<and> (l, n) \<in> set edges} \<union>
      {(n, Some n) | n. n \<in> set nodes \<and> (\<forall>e \<in> set edges. snd e \<noteq> n)})"
proof -
  have left: "set (map (\<lambda>(n, e_l). (n, map_option snd e_l))
                 (left_join nodes edges (\<lambda>n e_l. n = fst e_l))) =
     {(n, Some r) | n r. n \<in> set nodes \<and> (n, r) \<in> set edges} \<union>
     {(n, None) | n. n \<in> set nodes \<and> (\<forall>e \<in> set edges. fst e \<noteq> n)}"
    (is "?L = ?A \<union> ?B")
  proof (intro set_eqI iffI)
    fix row assume "row \<in> ?L"
    then obtain n e where "(n, e) \<in> set (left_join nodes edges (\<lambda>n e_l. n = fst e_l))"
      and row: "row = (n, map_option snd e)" by auto
    then show "row \<in> ?A \<union> ?B" unfolding set_left_join by (cases e) auto
  next
    fix row assume "row \<in> ?A \<union> ?B"
    then consider n r where "row = (n, Some r)" "n \<in> set nodes" "(n, r) \<in> set edges"
      | n where "row = (n, None)" "n \<in> set nodes" "\<forall>e \<in> set edges. fst e \<noteq> n" by blast
    then show "row \<in> ?L"
    proof cases
      case 1
      then have "(n, Some (n, r)) \<in> set (left_join nodes edges (\<lambda>n e_l. n = fst e_l))"
        unfolding set_left_join by simp
      then show ?thesis unfolding set_map using 1(1) by force
    next
      case 2
      then have "(n, None) \<in> set (left_join nodes edges (\<lambda>n e_l. n = fst e_l))"
        unfolding set_left_join by auto
      then show ?thesis unfolding set_map using 2(1) by force
    qed
  qed
  have right: "set (map (\<lambda>(n, e_r). (n, Some (case e_r of None \<Rightarrow> n | Some e \<Rightarrow> fst e)))
                 (left_join nodes edges (\<lambda>n e_r. n = snd e_r))) =
     {(n, Some l) | n l. n \<in> set nodes \<and> (l, n) \<in> set edges} \<union>
     {(n, Some n) | n. n \<in> set nodes \<and> (\<forall>e \<in> set edges. snd e \<noteq> n)}"
    (is "?L = ?A \<union> ?B")
  proof (intro set_eqI iffI)
    fix row assume "row \<in> ?L"
    then obtain n e where "(n, e) \<in> set (left_join nodes edges (\<lambda>n e_r. n = snd e_r))"
      and row: "row = (n, Some (case e of None \<Rightarrow> n | Some e \<Rightarrow> fst e))" by auto
    then show "row \<in> ?A \<union> ?B" unfolding set_left_join by (cases e) auto
  next
    fix row assume "row \<in> ?A \<union> ?B"
    then consider n l where "row = (n, Some l)" "n \<in> set nodes" "(l, n) \<in> set edges"
      | n where "row = (n, Some n)" "n \<in> set nodes" "\<forall>e \<in> set edges. snd e \<noteq> n" by blast
    then show "row \<in> ?L"
    proof cases
      case 1
      then have "(n, Some (l, n)) \<in> set (left_join nodes edges (\<lambda>n e_r. n = snd e_r))"
        unfolding set_left_join by simp
      then show ?thesis unfolding set_map using 1(1) by force
    next
      case 2
      then have "(n, None) \<in> set (left_join nodes edges (\<lambda>n e_r. n = snd e_r))"
        unfolding set_left_join by auto
      then show ?thesis unfolding set_map using 2(1) by force
    qed
  qed
  show ?thesis
    unfolding cc_generate_neighbours_representation_def set_sql_union left right ..
qed

lemma set_cc_neighbours:
  "set (cc_neighbours nodes_table edges_table t) =
     {(n, Some m) | n m. n \<in> set nodes_table \<and>
        ((n, m) \<in> set (filtered_edges t edges_table) \<or>
         (m, n) \<in> set (filtered_edges t edges_table) \<or> m = n)}"
  (is "?L = ?R")
proof -
  let ?V = "set nodes_table" and ?F = "set (filtered_edges t edges_table)"
  let ?E = "?F \<union> (\<lambda>n. (n, n)) ` ?V"
  have no_l: "{(n, None) | n. n \<in> ?V \<and> (\<forall>e \<in> ?E. fst e \<noteq> n)} = {}" by force
  have no_r: "{(n, Some n) | n. n \<in> ?V \<and> (\<forall>e \<in> ?E. snd e \<noteq> n)} = {}" by force
  have "?L = {(n, Some r) | n r. n \<in> ?V \<and> (n, r) \<in> ?E} \<union>
             {(n, Some l) | n l. n \<in> ?V \<and> (l, n) \<in> ?E}"
    unfolding cc_neighbours_def set_cc_generate_neighbours_representation set_splink_edges
      no_l no_r by simp
  also have "\<dots> = ?R" by auto
  finally show ?thesis .
qed

lemma nbrs_cc_neighbours:
  "nbrs (cc_neighbours nodes_table edges_table t) n =
     (if n \<in> set nodes_table
      then {m. (n, m) \<in> set (filtered_edges t edges_table) \<or>
               (m, n) \<in> set (filtered_edges t edges_table)} \<union> {n}
      else {})"
  by (auto simp: nbrs_def set_cc_neighbours)

lemma fst_set_cc_neighbours:
  "fst ` set (cc_neighbours nodes_table edges_table t) = set nodes_table"
  by (force simp: set_cc_neighbours image_iff)

lemma finite_nbrs [simp]: "finite (nbrs N n)"
proof -
  have "nbrs N n \<subseteq> (\<lambda>row. the (snd row)) ` set N"
    by (force simp: nbrs_def image_iff)
  then show ?thesis by (rule finite_subset) simp
qed

subsection \<open>The tables before the loop\<close>

lemma sql_min_min_opt: "sql_min vs = min_opt {v. Some v \<in> set vs}"
  by (simp add: sql_min_eq min_opt_def)

lemma set_group_aggregate:
  "set (map (\<lambda>(k, rows). (k, agg rows)) (group_by key xs)) =
     (\<lambda>k. (k, agg (filter (\<lambda>x. key x = k) xs))) ` key ` set xs"
  by (simp add: group_by_def image_image comp_def)

lemma map_fst_group_aggregate:
  "map fst (map (\<lambda>(k, rows). (k, agg rows)) (group_by key xs)) = remdups (map key xs)"
  by (simp add: group_by_def comp_def)

lemma neighbours_wf_cc_neighbours: "neighbours_wf (cc_neighbours nodes_table edges_table t)"
  unfolding neighbours_wf_def fst_set_cc_neighbours
  by (auto simp: set_cc_neighbours)

lemma nbrs_self:
  assumes "neighbours_wf N" and "n \<in> fst ` set N"
  shows "n \<in> nbrs N n"
  using assms unfolding neighbours_wf_def nbrs_def by blast

lemma nbrs_values:
  "{v. Some v \<in> set (map snd (filter (\<lambda>x. fst x = n) N))} = nbrs N n"
  by (force simp: nbrs_def image_iff)

lemma set_initial_representatives:
  assumes "neighbours_wf N"
  shows "set (cc_generate_initial_representatives_table N) =
           (\<lambda>n. (n, Some (initial_rep N n))) ` fst ` set N"
proof -
  have "sql_min (map snd (filter (\<lambda>x. fst x = n) N)) = Some (initial_rep N n)"
    if "n \<in> fst ` set N" for n
    using nbrs_self[OF assms that]
    unfolding sql_min_min_opt nbrs_values min_opt_def initial_rep_def by auto
  then show ?thesis
    unfolding cc_generate_initial_representatives_table_def set_sort set_group_aggregate
    by (intro image_cong) auto
qed

lemma distinct_initial_representatives:
  "distinct (map fst (cc_generate_initial_representatives_table N))"
  unfolding cc_generate_initial_representatives_table_def distinct_map_fst_sort_key
    map_fst_group_aggregate by simp

lemma set_neighbours_first_iter:
  assumes "neighbours_wf N"
  shows "set (cc_update_neighbours_first_iter N (cc_generate_initial_representatives_table N)) =
           (\<lambda>n. (n, Some (first_iter_rep N n))) ` fst ` set N"
proof -
  let ?Init = "cc_generate_initial_representatives_table N"
  let ?J = "left_join N ?Init (\<lambda>nb r. snd nb = Some (fst r))"
  let ?val = "\<lambda>(nb, r). case r of None \<Rightarrow> None | Some rr \<Rightarrow> snd rr"
  let ?key = "\<lambda>(nb :: neighbour_row, r :: (node_id \<times> node_id option) option). fst nb"
  have keys: "?key ` set ?J = fst ` set N"
  proof (intro set_eqI iffI)
    fix n assume "n \<in> ?key ` set ?J"
    then show "n \<in> fst ` set N" unfolding set_left_join by force
  next
    fix n assume "n \<in> fst ` set N"
    then obtain nb where nb: "nb \<in> set N" "fst nb = n" by auto
    have "\<exists>r. (nb, r) \<in> set ?J"
    proof (cases "\<exists>y \<in> set ?Init. snd nb = Some (fst y)")
      case True
      then obtain y where "y \<in> set ?Init" "snd nb = Some (fst y)" by blast
      with nb have "(nb, Some y) \<in> set ?J" unfolding set_left_join by blast
      then show ?thesis ..
    next
      case False
      with nb have "(nb, None) \<in> set ?J" unfolding set_left_join by blast
      then show ?thesis ..
    qed
    then obtain r where "(nb, r) \<in> set ?J" ..
    then have "?key (nb, r) \<in> ?key ` set ?J" by (rule imageI)
    with nb show "n \<in> ?key ` set ?J" by simp
  qed
  have vals: "{v. Some v \<in> set (map ?val (filter (\<lambda>x. ?key x = n) ?J))} =
              initial_rep N ` (nbrs N n \<inter> fst ` set N)" (is "?L = ?R") for n
  proof (intro set_eqI iffI)
    fix v assume "v \<in> ?L"
    then obtain nb r where j: "(nb, r) \<in> set ?J" "fst nb = n" "?val (nb, r) = Some v"
      by (auto simp: image_iff)
    then obtain rr where rr: "r = Some rr" "snd rr = Some v" by (cases r) auto
    with j(1) have a: "rr \<in> set ?Init" "snd nb = Some (fst rr)" "nb \<in> set N"
      unfolding set_left_join by auto
    from a(1) obtain m where m: "m \<in> fst ` set N" "rr = (m, Some (initial_rep N m))"
      unfolding set_initial_representatives[OF assms] by blast
    from a(2,3) j(2) m(2) have "(n, Some m) \<in> set N" by (metis fst_conv prod.collapse)
    then have "m \<in> nbrs N n" by (simp add: nbrs_def)
    moreover from rr(2) m(2) have "v = initial_rep N m" by simp
    ultimately show "v \<in> ?R" using m(1) by blast
  next
    fix v assume "v \<in> ?R"
    then obtain m where m: "m \<in> nbrs N n" "m \<in> fst ` set N" "v = initial_rep N m" by auto
    then have "(m, Some v) \<in> set ?Init" unfolding set_initial_representatives[OF assms] by auto
    moreover from m have "(n, Some m) \<in> set N" by (simp add: nbrs_def)
    ultimately have "((n, Some m), Some (m, Some v)) \<in> set ?J"
      unfolding set_left_join by simp
    then have "((n, Some m), Some (m, Some v)) \<in> set (filter (\<lambda>x. ?key x = n) ?J)" by simp
    then have "?val ((n, Some m), Some (m, Some v)) \<in> set (map ?val (filter (\<lambda>x. ?key x = n) ?J))"
      unfolding set_map by (rule imageI)
    then show "v \<in> ?L" by simp
  qed
  have "sql_min (map ?val (filter (\<lambda>x. ?key x = n) ?J)) = Some (first_iter_rep N n)"
    if "n \<in> fst ` set N" for n
  proof -
    from nbrs_self[OF assms that] that
    have "initial_rep N ` (nbrs N n \<inter> fst ` set N) \<noteq> {}" by blast
    then show ?thesis unfolding sql_min_min_opt vals min_opt_def first_iter_rep_def by simp
  qed
  then show ?thesis
    unfolding cc_update_neighbours_first_iter_def set_sort set_group_aggregate keys
    by (intro image_cong) auto
qed

lemma distinct_neighbours_first_iter:
  "distinct (map fst (cc_update_neighbours_first_iter N R))"
  unfolding cc_update_neighbours_first_iter_def distinct_map_fst_sort_key
    map_fst_group_aggregate by simp

lemma table_of_iff:
  "row \<in> table_of S rep rm \<longleftrightarrow> (\<exists>n \<in> S. row = (n, Some (rep n), Some (rm n)))"
  by (auto simp: table_of_def)

lemma fst_table_of [simp]: "fst ` table_of S rep rm = S"
  by (force simp: table_of_def image_iff)

lemma set_representatives_first_iter:
  assumes "neighbours_wf N"
  shows "set (cc_update_representatives_first_iter
                (cc_update_neighbours_first_iter N (cc_generate_initial_representatives_table N))
                (cc_generate_initial_representatives_table N)) =
           table_of (fst ` set N) (first_iter_rep N)
             (\<lambda>n. first_iter_rep N n \<noteq> initial_rep N n)"
  unfolding cc_update_representatives_first_iter_def set_map set_inner_join
    set_neighbours_first_iter[OF assms] set_initial_representatives[OF assms] table_of_def
  by (force simp: sql_neq_def image_iff)

lemma filter_key_le1:
  assumes "distinct (map fst ys)"
  shows "length (filter (\<lambda>y. k = fst y) ys) \<le> 1"
  using assms
proof (induction ys)
  case Nil
  then show ?case by simp
next
  case (Cons a ys)
  show ?case
  proof (cases "k = fst a")
    case True
    with Cons.prems have "\<forall>y \<in> set ys. k \<noteq> fst y" by (auto simp: image_iff)
    then have "filter (\<lambda>y. k = fst y) ys = []" by (simp add: filter_empty_conv)
    with True show ?thesis by simp
  next
    case False
    with Cons show ?thesis by simp
  qed
qed

lemma distinct_inner_join_on_key:
  assumes "distinct (map fst xs)" and "distinct (map fst ys)"
  shows "distinct (map (\<lambda>(x, y). fst x) (inner_join xs ys (\<lambda>x y. fst x = fst y)))"
  using assms(1)
proof (induction xs)
  case Nil
  then show ?case by (simp add: inner_join_def)
next
  case (Cons x xs)
  have ij: "inner_join (x # xs) ys (\<lambda>x y. fst x = fst y) =
        map (Pair x) (filter (\<lambda>y. fst x = fst y) ys) @ inner_join xs ys (\<lambda>x y. fst x = fst y)"
    by (simp add: inner_join_def)
  have keys: "set (map (\<lambda>(x, y). fst x) (inner_join xs ys (\<lambda>x y. fst x = fst y))) \<subseteq> fst ` set xs"
    unfolding set_map set_inner_join by auto
  let ?h = "map (\<lambda>(x, y). fst x) (map (Pair x) (filter (\<lambda>y. fst x = fst y) ys))"
  let ?t = "map (\<lambda>(x, y). fst x) (inner_join xs ys (\<lambda>x y. fst x = fst y))"
  from filter_key_le1[OF assms(2), of "fst x"]
  have d1: "distinct ?h"
    by (cases "filter (\<lambda>y. fst x = fst y) ys") auto
  have s1: "set ?h \<subseteq> {fst x}" by auto
  from Cons.prems have nx: "fst x \<notin> fst ` set xs" by simp
  from Cons have d2: "distinct ?t" by simp
  from s1 keys nx have "set ?h \<inter> set ?t = {}" by blast
  with d1 d2 show ?case unfolding ij map_append distinct_append by blast
qed

lemma distinct_representatives_first_iter:
  assumes "distinct (map fst F)" and "distinct (map fst R)"
  shows "distinct (map fst (cc_update_representatives_first_iter F R))"
proof -
  have "map fst (cc_update_representatives_first_iter F R) =
        map (\<lambda>(x, y). fst x) (inner_join F R (\<lambda>x y. fst x = fst y))"
    by (simp add: cc_update_representatives_first_iter_def case_prod_unfold)
  then show ?thesis using distinct_inner_join_on_key[OF assms] by simp
qed

subsection \<open>One pass of the loop, query by query\<close>

lemma set_generate_representatives_loop_cond:
  assumes tab: "set prev = table_of S rep rm"
    and wf: "neighbours_wf N"
    and sub: "S \<subseteq> fst ` set N"
    and bk: "\<forall>n m. (n, Some m) \<in> set N \<and> m \<in> S \<longrightarrow> n \<in> S"
  shows "set (cc_generate_representatives_loop_cond N prev) =
           (\<lambda>n. (n, Some (next_rep N S rep rm n))) ` S"
proof -
  define source where "source =
      map (\<lambda>(nb, repr_neighbour). (fst nb, fst (snd repr_neighbour)))
        (filter (\<lambda>(nb, repr_neighbour). snd (snd repr_neighbour) = Some True)
           (inner_join N prev (\<lambda>nb repr_neighbour. snd nb = Some (fst repr_neighbour))))
      @ map (\<lambda>p. (fst p, fst (snd p))) (filter (\<lambda>p. snd (snd p) = Some False) prev)"
  have src: "set source =
      {(n, Some (rep m)) | n m. (n, Some m) \<in> set N \<and> m \<in> S \<and> rm m} \<union>
      {(n, Some (rep n)) | n. n \<in> S \<and> \<not> rm n}" (is "_ = ?A \<union> ?B")
  proof -
    have "set (map (\<lambda>(nb, repr_neighbour). (fst nb, fst (snd repr_neighbour)))
        (filter (\<lambda>(nb, repr_neighbour). snd (snd repr_neighbour) = Some True)
           (inner_join N prev (\<lambda>nb repr_neighbour. snd nb = Some (fst repr_neighbour))))) = ?A"
      unfolding set_map set_filter set_inner_join tab
      by (force simp: table_of_iff image_iff)
    moreover have "set (map (\<lambda>p. (fst p, fst (snd p)))
         (filter (\<lambda>p. snd (snd p) = Some False) prev)) = ?B"
      unfolding set_map set_filter tab
      by (force simp: table_of_iff image_iff)
    ultimately show ?thesis unfolding source_def set_append by simp
  qed
  have self: "(n, Some n) \<in> set N" if "n \<in> S" for n
    using that wf sub unfolding neighbours_wf_def by blast
  have keys: "fst ` set source = S"
  proof (intro set_eqI iffI)
    fix n assume "n \<in> fst ` set source"
    then show "n \<in> S" unfolding src using bk by force
  next
    fix n assume n: "n \<in> S"
    show "n \<in> fst ` set source"
    proof (cases "rm n")
      case True
      with n self[OF n] have "(n, Some (rep n)) \<in> set source" unfolding src by blast
      then show ?thesis by force
    next
      case False
      with n have "(n, Some (rep n)) \<in> set source" unfolding src by blast
      then show ?thesis by force
    qed
  qed
  have vals: "{v. Some v \<in> set (map snd (filter (\<lambda>x. fst x = n) source))} =
              rep ` {m \<in> nbrs N n \<inter> S. rm m} \<union> (if rm n then {} else {rep n})"
    if "n \<in> S" for n
  proof -
    have "{v. Some v \<in> set (map snd (filter (\<lambda>x. fst x = n) source))} =
          {v. (n, Some v) \<in> set source}"
      by (force simp: image_iff)
    also have "\<dots> = rep ` {m \<in> nbrs N n \<inter> S. rm m} \<union> (if rm n then {} else {rep n})"
      unfolding src using that by (auto simp: nbrs_def)
    finally show ?thesis .
  qed
  have "sql_min (map snd (filter (\<lambda>x. fst x = n) source)) = Some (next_rep N S rep rm n)"
    if "n \<in> S" for n
  proof -
    have "rep ` {m \<in> nbrs N n \<inter> S. rm m} \<union> (if rm n then {} else {rep n}) \<noteq> {}"
      using self[OF that] that by (auto simp: nbrs_def)
    then show ?thesis unfolding sql_min_min_opt vals[OF that] min_opt_def next_rep_def by simp
  qed
  then show ?thesis
    unfolding cc_generate_representatives_loop_cond_def source_def[symmetric] Let_def
      set_group_aggregate keys
    by (intro image_cong) auto
qed

lemma distinct_generate_representatives_loop_cond:
  "distinct (map fst (cc_generate_representatives_loop_cond N prev))"
  unfolding cc_generate_representatives_loop_cond_def Let_def map_fst_group_aggregate by simp

lemma set_update_representatives_loop_cond:
  assumes "set prev = table_of S rep rm"
    and "set r = (\<lambda>n. (n, Some (rep' n))) ` S"
  shows "set (cc_update_representatives_loop_cond r prev) =
           table_of S rep' (\<lambda>n. rep' n \<noteq> rep n)"
  unfolding cc_update_representatives_loop_cond_def set_map set_left_join assms table_of_def
  by (force simp: sql_neq_def image_iff)

lemma distinct_update_representatives_loop_cond:
  assumes "distinct (map fst prev)" and "distinct (map fst r)"
    and "fst ` set r \<subseteq> fst ` set prev"
  shows "distinct (map fst (cc_update_representatives_loop_cond r prev))"
proof -
  have "\<forall>x \<in> set r. \<exists>y \<in> set prev. fst y = fst x" using assms(3) by force
  from left_join_on_key[OF assms(1) this]
  have "left_join r prev (\<lambda>rr repr. fst rr = fst repr) =
        map (\<lambda>x. (x, Some (THE y. y \<in> set prev \<and> fst y = fst x))) r" .
  then have "map fst (cc_update_representatives_loop_cond r prev) = map fst r"
    by (simp add: cc_update_representatives_loop_cond_def comp_def)
  with assms(2) show ?thesis by simp
qed

lemma list_sort_distinct_eq_iff:
  "list_sort_distinct xs = list_sort_distinct ys \<longleftrightarrow>
     {v. Some v \<in> set xs} = {v. Some v \<in> set ys}"
proof
  assume "list_sort_distinct xs = list_sort_distinct ys"
  then have "set (list_sort_distinct xs) = set (list_sort_distinct ys)" by simp
  then show "{v. Some v \<in> set xs} = {v. Some v \<in> set ys}"
    by (simp add: list_sort_distinct_def)
next
  assume "{v. Some v \<in> set xs} = {v. Some v \<in> set ys}"
  then have "set (list_sort_distinct xs) = set (list_sort_distinct ys)"
    by (simp add: list_sort_distinct_def)
  moreover have "sorted (list_sort_distinct xs)" "distinct (list_sort_distinct xs)"
    "sorted (list_sort_distinct ys)" "distinct (list_sort_distinct ys)"
    by (simp_all add: list_sort_distinct_def)
  ultimately show "list_sort_distinct xs = list_sort_distinct ys"
    by (metis sorted_distinct_set_unique)
qed

lemma stable_cluster_reps:
  assumes tab: "set reps = table_of S rep rm"
  shows "Some c \<in> set (map fst (stable_clusters (cluster_composition_current reps N))) \<longleftrightarrow>
           (\<exists>n \<in> S. rep n = c) \<and> stable_rep N S rep c"
proof -
  define J where "J = left_join reps N (\<lambda>r nb. fst r = fst nb)"
  let ?key = "\<lambda>(r :: representative_row, nb :: neighbour_row option). fst (snd r)"
  let ?idf = "\<lambda>(r :: representative_row, nb :: neighbour_row option). Some (fst r)"
  let ?nbf = "\<lambda>(r :: representative_row, nb :: neighbour_row option).
                case nb of None \<Rightarrow> None | Some x \<Rightarrow> snd x"
  have comp: "set (cluster_composition_current reps N) =
      (\<lambda>k. (k, list_sort_distinct (map ?idf (filter (\<lambda>x. ?key x = k) J)),
                list_sort_distinct (map ?nbf (filter (\<lambda>x. ?key x = k) J)))) ` ?key ` set J"
    unfolding cluster_composition_current_def J_def[symmetric]
    by (simp only: set_group_aggregate[where agg = "\<lambda>rows. (list_sort_distinct (map ?idf rows),
                list_sort_distinct (map ?nbf rows))"])
  have st: "k \<in> set (map fst (stable_clusters (cluster_composition_current reps N))) \<longleftrightarrow>
      k \<in> ?key ` set J \<and>
      {v. Some v \<in> set (map ?idf (filter (\<lambda>x. ?key x = k) J))} =
      {v. Some v \<in> set (map ?nbf (filter (\<lambda>x. ?key x = k) J))}" for k
  proof -
    have "k \<in> set (map fst (stable_clusters (cluster_composition_current reps N))) \<longleftrightarrow>
          (\<exists>a. (k, a, a) \<in> set (cluster_composition_current reps N))"
      by (force simp: stable_clusters_def image_iff)
    also have "\<dots> \<longleftrightarrow> k \<in> ?key ` set J \<and>
        list_sort_distinct (map ?idf (filter (\<lambda>x. ?key x = k) J)) =
        list_sort_distinct (map ?nbf (filter (\<lambda>x. ?key x = k) J))"
      unfolding comp by blast
    finally show ?thesis unfolding list_sort_distinct_eq_iff .
  qed
  have Jset: "set J =
      {(r, Some nb) | r nb. r \<in> set reps \<and> nb \<in> set N \<and> fst r = fst nb} \<union>
      {(r, None) | r. r \<in> set reps \<and> (\<forall>nb \<in> set N. fst r \<noteq> fst nb)}"
    unfolding J_def set_left_join by simp
  have inJ: "\<exists>nb. (r, nb) \<in> set J" if "r \<in> set reps" for r
  proof (cases "\<exists>nb \<in> set N. fst r = fst nb")
    case True
    then obtain nb where "nb \<in> set N" "fst r = fst nb" by blast
    with that have "(r, Some nb) \<in> set J" unfolding Jset by blast
    then show ?thesis ..
  next
    case False
    with that have "(r, None) \<in> set J" unfolding Jset by blast
    then show ?thesis ..
  qed
  have fstJ: "r \<in> set reps" if "(r, nb) \<in> set J" for r nb
    using that unfolding Jset by auto
  have keys: "Some c \<in> ?key ` set J \<longleftrightarrow> (\<exists>n \<in> S. rep n = c)"
  proof
    assume "Some c \<in> ?key ` set J"
    then obtain r nb where "(r, nb) \<in> set J" "fst (snd r) = Some c" by (auto simp: image_iff)
    with fstJ[of r nb] show "\<exists>n \<in> S. rep n = c" unfolding tab table_of_iff by auto
  next
    assume "\<exists>n \<in> S. rep n = c"
    then obtain n where n: "n \<in> S" "rep n = c" by blast
    then have "(n, Some c, Some (rm n)) \<in> set reps" unfolding tab table_of_iff by blast
    from inJ[OF this] obtain nb where "((n, Some c, Some (rm n)), nb) \<in> set J" ..
    then have "?key ((n, Some c, Some (rm n)), nb) \<in> ?key ` set J" by (rule imageI)
    then show "Some c \<in> ?key ` set J" by simp
  qed
  have ids: "{v. Some v \<in> set (map ?idf (filter (\<lambda>x. ?key x = Some c) J))} =
             {n \<in> S. rep n = c}" (is "?L = ?R")
  proof (intro set_eqI iffI)
    fix v assume "v \<in> ?L"
    then obtain r nb where j: "(r, nb) \<in> set J" "fst (snd r) = Some c" "fst r = v"
      by (auto simp: image_iff)
    with fstJ[of r nb] show "v \<in> ?R" unfolding tab table_of_iff by auto
  next
    fix v assume "v \<in> ?R"
    then have "(v, Some c, Some (rm v)) \<in> set reps" unfolding tab table_of_iff by blast
    from inJ[OF this] obtain nb where "((v, Some c, Some (rm v)), nb) \<in> set J" ..
    then have "((v, Some c, Some (rm v)), nb) \<in> set (filter (\<lambda>x. ?key x = Some c) J)" by simp
    then have "?idf ((v, Some c, Some (rm v)), nb) \<in> set (map ?idf (filter (\<lambda>x. ?key x = Some c) J))"
      unfolding set_map by (rule imageI)
    then show "v \<in> ?L" by simp
  qed
  have nbs: "{v. Some v \<in> set (map ?nbf (filter (\<lambda>x. ?key x = Some c) J))} =
             (\<Union>n \<in> {n \<in> S. rep n = c}. nbrs N n)" (is "?L = ?R")
  proof (intro set_eqI iffI)
    fix v assume "v \<in> ?L"
    then obtain r nb where j: "(r, nb) \<in> set J" "fst (snd r) = Some c" "?nbf (r, nb) = Some v"
      by (auto simp: image_iff)
    then obtain x where x: "nb = Some x" "snd x = Some v" by (cases nb) auto
    with j(1) have a: "r \<in> set reps" "x \<in> set N" "fst r = fst x" unfolding Jset by auto
    from a(2,3) x(2) have "(fst r, Some v) \<in> set N" by (metis prod.collapse)
    moreover from a(1) j(2) have "fst r \<in> S" "rep (fst r) = c"
      unfolding tab table_of_iff by auto
    ultimately show "v \<in> ?R" by (auto simp: nbrs_def)
  next
    fix v assume "v \<in> ?R"
    then obtain n where n: "n \<in> S" "rep n = c" "(n, Some v) \<in> set N" by (auto simp: nbrs_def)
    then have "(n, Some c, Some (rm n)) \<in> set reps" unfolding tab table_of_iff by blast
    with n(3) have "((n, Some c, Some (rm n)), Some (n, Some v)) \<in> set J" unfolding Jset by simp
    then have "((n, Some c, Some (rm n)), Some (n, Some v)) \<in> set (filter (\<lambda>x. ?key x = Some c) J)"
      by simp
    then have "?nbf ((n, Some c, Some (rm n)), Some (n, Some v))
        \<in> set (map ?nbf (filter (\<lambda>x. ?key x = Some c) J))"
      unfolding set_map by (rule imageI)
    then show "v \<in> ?L" by simp
  qed
  show ?thesis unfolding st[of "Some c"] keys ids nbs stable_rep_def ..
qed

lemma set_representatives_stable:
  assumes tab: "set reps = table_of S rep rm"
  shows "set (representatives_stable reps N) =
           table_of {n \<in> S. stable_rep N S rep (rep n)} rep rm"
proof -
  define vs where "vs = map fst (stable_clusters (cluster_composition_current reps N))"
  have v: "Some c \<in> set vs \<longleftrightarrow> (\<exists>n \<in> S. rep n = c) \<and> stable_rep N S rep c" for c
    unfolding vs_def by (rule stable_cluster_reps[OF tab])
  show ?thesis
    unfolding representatives_stable_def vs_def[symmetric] set_filter sql_in_def
  proof (intro set_eqI iffI)
    fix row
    assume "row \<in> {x \<in> set reps. fst (snd x) \<noteq> None \<and> fst (snd x) \<in> set vs}"
    then have "row \<in> set reps" "fst (snd row) \<in> set vs" by blast+
    then obtain n where n: "n \<in> S" "row = (n, Some (rep n), Some (rm n))"
      "Some (rep n) \<in> set vs"
      unfolding tab table_of_iff by auto
    with v[of "rep n"]
    show "row \<in> table_of {n \<in> S. stable_rep N S rep (rep n)} rep rm"
      unfolding table_of_iff by blast
  next
    fix row
    assume "row \<in> table_of {n \<in> S. stable_rep N S rep (rep n)} rep rm"
    then obtain n where n: "n \<in> S" "stable_rep N S rep (rep n)"
      "row = (n, Some (rep n), Some (rm n))" unfolding table_of_iff by blast
    with v[of "rep n"] have "Some (rep n) \<in> set vs" by blast
    with n show "row \<in> {x \<in> set reps. fst (snd x) \<noteq> None \<and> fst (snd x) \<in> set vs}"
      unfolding tab table_of_iff by auto
  qed
qed

lemma set_representatives_thinned:
  assumes tab: "set reps = table_of S rep rm"
  shows "set (representatives_thinned reps (representatives_stable reps N)) =
           table_of {n \<in> S. \<not> stable_rep N S rep (rep n)} rep rm"
proof -
  define vs where "vs = map (\<lambda>s. fst (snd s)) (representatives_stable reps N)"
  have vset: "set vs = (\<lambda>n. Some (rep n)) ` {n \<in> S. stable_rep N S rep (rep n)}"
    unfolding vs_def set_map set_representatives_stable[OF tab] table_of_def
    by (simp add: image_image)
  have ni: "sql_not_in (Some c) vs \<longleftrightarrow> Some c \<notin> set vs" for c
    unfolding sql_not_in_def using vset by auto
  show ?thesis
    unfolding representatives_thinned_def vs_def[symmetric] set_filter
  proof (intro set_eqI iffI)
    fix row assume "row \<in> {x \<in> set reps. sql_not_in (fst (snd x)) vs}"
    then obtain n where n: "n \<in> S" "row = (n, Some (rep n), Some (rm n))"
      "sql_not_in (Some (rep n)) vs" unfolding tab table_of_iff by auto
    from n(3) n(1) have "\<not> stable_rep N S rep (rep n)" unfolding ni vset by blast
    with n show "row \<in> table_of {n \<in> S. \<not> stable_rep N S rep (rep n)} rep rm"
      unfolding table_of_iff by blast
  next
    fix row assume "row \<in> table_of {n \<in> S. \<not> stable_rep N S rep (rep n)} rep rm"
    then obtain n where n: "n \<in> S" "\<not> stable_rep N S rep (rep n)"
      "row = (n, Some (rep n), Some (rm n))" unfolding table_of_iff by blast
    from n(2) have "Some (rep n) \<notin> set vs" unfolding vset by auto
    then have "sql_not_in (Some (rep n)) vs" unfolding ni .
    with n show "row \<in> {x \<in> set reps. sql_not_in (fst (snd x)) vs}"
      unfolding tab table_of_iff by auto
  qed
qed

subsection \<open>One pass of the loop as a whole\<close>

lemma next_rep_props:
  assumes wf: "neighbours_wf N" and sub: "S \<subseteq> fst ` set N" and n: "n \<in> S"
  shows "next_rep N S rep rm n \<le> rep n"
    and "next_rep N S rep rm n \<in> rep ` (nbrs N n \<inter> S)"
    and "\<And>m. m \<in> nbrs N n \<Longrightarrow> m \<in> S \<Longrightarrow> rm m \<Longrightarrow> next_rep N S rep rm n \<le> rep m"
proof -
  let ?A = "rep ` {m \<in> nbrs N n \<inter> S. rm m} \<union> (if rm n then {} else {rep n})"
  have self: "n \<in> nbrs N n" using nbrs_self[OF wf] sub n by blast
  have fin: "finite ?A" by simp
  have mem: "rep n \<in> ?A" using self n by auto
  then have ne: "?A \<noteq> {}" by blast
  show "next_rep N S rep rm n \<le> rep n"
    unfolding next_rep_def using fin mem by (rule Min_le)
  have "Min ?A \<in> ?A" using fin ne by (rule Min_in)
  moreover have "?A \<subseteq> rep ` (nbrs N n \<inter> S)" using self n by auto
  ultimately show "next_rep N S rep rm n \<in> rep ` (nbrs N n \<inter> S)"
    unfolding next_rep_def by blast
  fix m assume "m \<in> nbrs N n" "m \<in> S" "rm m"
  then have "rep m \<in> ?A" by auto
  with fin show "next_rep N S rep rm n \<le> rep m" unfolding next_rep_def by (rule Min_le)
qed

lemma cc_iteration_tables:
  assumes wf: "neighbours_wf N"
    and tab: "set (prev_representatives_table st) = table_of S rep rm"
    and dist: "distinct (map fst (prev_representatives_table st))"
    and sub: "S \<subseteq> fst ` set N"
    and bk: "\<forall>n m. (n, Some m) \<in> set N \<and> m \<in> S \<longrightarrow> n \<in> S"
  defines "rep' \<equiv> next_rep N S rep rm"
  defines "rm' \<equiv> \<lambda>n. rep' n \<noteq> rep n"
  defines "S' \<equiv> {n \<in> S. \<not> stable_rep N S rep' (rep' n)}"
  shows "set (prev_representatives_table (cc_iteration N st)) = table_of S' rep' rm'"
    and "distinct (map fst (prev_representatives_table (cc_iteration N st)))"
    and "\<exists>stable_rows. converged_repr_tables (cc_iteration N st) =
            converged_repr_tables st @ [stable_rows] \<and>
            set stable_rows = table_of (S - S') rep' rm' \<and> distinct (map fst stable_rows)"
    and "root_rows_count (cc_iteration N st) =
           cc_assess_exit_condition (prev_representatives_table (cc_iteration N st))"
    and "root_rows_count (cc_iteration N st) > 0 \<longleftrightarrow> (\<exists>n \<in> S'. rm' n)"
proof -
  let ?prev = "prev_representatives_table st"
  define r where "r = cc_generate_representatives_loop_cond N ?prev"
  define reps where "reps = cc_update_representatives_loop_cond r ?prev"
  define stable_rows where "stable_rows = representatives_stable reps N"
  define thinned where "thinned = representatives_thinned reps stable_rows"
  have it: "cc_iteration N st =
      \<lparr>iteration = iteration st + 1,
       root_rows_count = cc_assess_exit_condition thinned,
       prev_representatives_table = thinned,
       converged_repr_tables = converged_repr_tables st @ [stable_rows]\<rparr>"
    unfolding cc_iteration_def Let_def r_def reps_def stable_rows_def thinned_def ..
  have rset: "set r = (\<lambda>n. (n, Some (rep' n))) ` S"
    unfolding r_def rep'_def
    by (rule set_generate_representatives_loop_cond[OF tab wf sub bk])
  have rdist: "distinct (map fst r)"
    unfolding r_def by (rule distinct_generate_representatives_loop_cond)
  have repset: "set reps = table_of S rep' rm'"
    unfolding reps_def rm'_def
    by (rule set_update_representatives_loop_cond[OF tab rset])
  have "fst ` set r \<subseteq> fst ` set ?prev" unfolding rset tab by (simp add: image_image)
  then have repdist: "distinct (map fst reps)"
    unfolding reps_def by (rule distinct_update_representatives_loop_cond[OF dist rdist])
  have stset: "set stable_rows = table_of {n \<in> S. stable_rep N S rep' (rep' n)} rep' rm'"
    unfolding stable_rows_def by (rule set_representatives_stable[OF repset])
  have "{n \<in> S. stable_rep N S rep' (rep' n)} = S - S'" unfolding S'_def by blast
  with stset have stset': "set stable_rows = table_of (S - S') rep' rm'" by simp
  have stdist: "distinct (map fst stable_rows)"
    unfolding stable_rows_def representatives_stable_def
    using repdist by (rule distinct_map_filter)
  have thset: "set thinned = table_of S' rep' rm'"
    unfolding thinned_def stable_rows_def S'_def
    by (rule set_representatives_thinned[OF repset])
  have thdist: "distinct (map fst thinned)"
    unfolding thinned_def representatives_thinned_def
    using repdist by (rule distinct_map_filter)
  show "set (prev_representatives_table (cc_iteration N st)) = table_of S' rep' rm'"
    unfolding it using thset by simp
  show "distinct (map fst (prev_representatives_table (cc_iteration N st)))"
    unfolding it using thdist by simp
  show "\<exists>stable_rows. converged_repr_tables (cc_iteration N st) =
            converged_repr_tables st @ [stable_rows] \<and>
            set stable_rows = table_of (S - S') rep' rm' \<and> distinct (map fst stable_rows)"
    unfolding it using stset' stdist by simp
  show "root_rows_count (cc_iteration N st) =
           cc_assess_exit_condition (prev_representatives_table (cc_iteration N st))"
    unfolding it by simp
  have "cc_assess_exit_condition thinned > 0 \<longleftrightarrow> (\<exists>row \<in> set thinned. snd (snd row) = Some True)"
    unfolding cc_assess_exit_condition_def length_greater_0_conv
    by (simp add: filter_empty_conv)
  also have "\<dots> \<longleftrightarrow> (\<exists>n \<in> S'. rm' n)" unfolding thset table_of_def by auto
  finally show "root_rows_count (cc_iteration N st) > 0 \<longleftrightarrow> (\<exists>n \<in> S'. rm' n)"
    unfolding it by simp
qed

subsection \<open>The invariant that holds for any edges, and termination\<close>

lemma table_weight_table_of:
  assumes "set T = table_of S rep rm"
  shows "table_weight N T = (\<Sum>n \<in> S. nat (rep n - lower_bound N) + 1)"
proof -
  have inj: "inj_on (\<lambda>n. (n, Some (rep n), Some (rm n))) S" by (rule inj_onI) simp
  show ?thesis unfolding table_weight_def assms table_of_def
    by (simp add: sum.reindex[OF inj])
qed

lemma finite_table_nodes:
  assumes "set T = table_of S rep rm"
  shows "finite S"
proof -
  have "S = fst ` set T" unfolding assms by simp
  then show ?thesis by simp
qed

lemma lower_bound_le:
  assumes "(n, Some v) \<in> set N"
  shows "lower_bound N \<le> v"
proof -
  have "v \<in> insert 0 ((\<lambda>row. the (snd row)) ` set N)" using assms by force
  then show ?thesis unfolding lower_bound_def by (intro Min_le) simp_all
qed

lemma initial_rep_in_nbrs:
  assumes "neighbours_wf N" and "n \<in> fst ` set N"
  shows "initial_rep N n \<in> nbrs N n"
  unfolding initial_rep_def using nbrs_self[OF assms] by (intro Min_in) auto

lemma first_iter_rep_in:
  assumes "neighbours_wf N" and "n \<in> fst ` set N"
  shows "first_iter_rep N n \<in> initial_rep N ` (nbrs N n \<inter> fst ` set N)"
  unfolding first_iter_rep_def using nbrs_self[OF assms] assms(2) by (intro Min_in) auto

lemma initial_state_table:
  assumes "neighbours_wf N"
  shows "set (prev_representatives_table (cc_initial_state N)) =
           table_of (fst ` set N) (first_iter_rep N) (\<lambda>n. first_iter_rep N n \<noteq> initial_rep N n)"
    and "distinct (map fst (prev_representatives_table (cc_initial_state N)))"
    and "converged_repr_tables (cc_initial_state N) = []"
    and "root_rows_count (cc_initial_state N) = 1"
proof -
  show "set (prev_representatives_table (cc_initial_state N)) =
           table_of (fst ` set N) (first_iter_rep N) (\<lambda>n. first_iter_rep N n \<noteq> initial_rep N n)"
    unfolding cc_initial_state_def Let_def using set_representatives_first_iter[OF assms] by simp
  show "distinct (map fst (prev_representatives_table (cc_initial_state N)))"
    unfolding cc_initial_state_def Let_def
    using distinct_representatives_first_iter[OF distinct_neighbours_first_iter
        distinct_initial_representatives] by simp
  show "converged_repr_tables (cc_initial_state N) = []"
    and "root_rows_count (cc_initial_state N) = 1"
    by (simp_all add: cc_initial_state_def Let_def)
qed

lemma cc_invariant_initial:
  assumes wf: "neighbours_wf N"
  shows "cc_invariant N (cc_initial_state N)"
proof -
  have lb: "lower_bound N \<le> first_iter_rep N n" if "n \<in> fst ` set N" for n
  proof -
    from first_iter_rep_in[OF wf that] obtain m where
      m: "m \<in> fst ` set N" "first_iter_rep N n = initial_rep N m" by blast
    from initial_rep_in_nbrs[OF wf m(1)] have "(m, Some (initial_rep N m)) \<in> set N"
      by (simp add: nbrs_def)
    from lower_bound_le[OF this] m(2) show ?thesis by simp
  qed
  have bk: "\<forall>n m. (n, Some m) \<in> set N \<and> m \<in> fst ` set N \<longrightarrow> n \<in> fst ` set N" by force
  show ?thesis unfolding cc_invariant_def
    using initial_state_table(1,2)[OF wf] lb bk by blast
qed

lemma stable_rep_closed:
  assumes "stable_rep N S rep c" and "n \<in> S" and "rep n = c" and "m \<in> nbrs N n"
  shows "m \<in> S \<and> rep m = c"
proof -
  from assms(2,3,4) have "m \<in> (\<Union>n \<in> {n \<in> S. rep n = c}. nbrs N n)" by blast
  with assms(1) have "m \<in> {n \<in> S. rep n = c}" unfolding stable_rep_def by simp
  then show ?thesis by simp
qed

lemma cc_invariant_step:
  assumes wf: "neighbours_wf N" and inv: "cc_invariant N st"
  shows "cc_invariant N (cc_iteration N st)"
    and "fst ` set (prev_representatives_table (cc_iteration N st))
           \<subseteq> fst ` set (prev_representatives_table st)"
    and "table_weight N (prev_representatives_table (cc_iteration N st))
           \<le> table_weight N (prev_representatives_table st)"
    and "root_rows_count (cc_iteration N st) > 0 \<Longrightarrow>
         table_weight N (prev_representatives_table (cc_iteration N st))
           < table_weight N (prev_representatives_table st)"
proof -
  from inv obtain S rep rm where
    tab: "set (prev_representatives_table st) = table_of S rep rm"
    and dist: "distinct (map fst (prev_representatives_table st))"
    and sub: "S \<subseteq> fst ` set N"
    and bk: "\<forall>n m. (n, Some m) \<in> set N \<and> m \<in> S \<longrightarrow> n \<in> S"
    and lb: "\<forall>n \<in> S. lower_bound N \<le> rep n"
    unfolding cc_invariant_def by blast
  define rep' where "rep' = next_rep N S rep rm"
  define rm' where "rm' = (\<lambda>n. rep' n \<noteq> rep n)"
  define S' where "S' = {n \<in> S. \<not> stable_rep N S rep' (rep' n)}"
  have it1: "set (prev_representatives_table (cc_iteration N st)) = table_of S' rep' rm'"
    unfolding S'_def rm'_def rep'_def by (rule cc_iteration_tables(1)[OF wf tab dist sub bk])
  have it2: "distinct (map fst (prev_representatives_table (cc_iteration N st)))"
    by (rule cc_iteration_tables(2)[OF wf tab dist sub bk])
  have it5: "root_rows_count (cc_iteration N st) > 0 \<longleftrightarrow> (\<exists>n \<in> S'. rm' n)"
    unfolding S'_def rm'_def rep'_def by (rule cc_iteration_tables(5)[OF wf tab dist sub bk])
  have S'S: "S' \<subseteq> S" unfolding S'_def by blast
  have le: "rep' n \<le> rep n" if "n \<in> S" for n
    unfolding rep'_def by (rule next_rep_props(1)[OF wf sub that])
  have lb': "lower_bound N \<le> rep' n" if "n \<in> S" for n
  proof -
    from next_rep_props(2)[OF wf sub that, of rep rm]
    obtain m where "m \<in> S" "rep' n = rep m" unfolding rep'_def by blast
    with lb show ?thesis by simp
  qed
  have bk': "\<forall>n m. (n, Some m) \<in> set N \<and> m \<in> S' \<longrightarrow> n \<in> S'"
  proof (intro allI impI)
    fix n m assume a: "(n, Some m) \<in> set N \<and> m \<in> S'"
    then have nS: "n \<in> S" using bk S'S by blast
    show "n \<in> S'"
    proof (rule ccontr)
      assume "n \<notin> S'"
      with nS have "stable_rep N S rep' (rep' n)" unfolding S'_def by simp
      from stable_rep_closed[OF this nS refl, of m] a
      have "m \<in> S \<and> rep' m = rep' n" by (simp add: nbrs_def)
      with \<open>stable_rep N S rep' (rep' n)\<close> have "m \<notin> S'" unfolding S'_def by simp
      with a show False by simp
    qed
  qed
  show "cc_invariant N (cc_iteration N st)"
  proof -
    have "S' \<subseteq> fst ` set N" using S'S sub by blast
    moreover have "\<forall>n \<in> S'. lower_bound N \<le> rep' n" using lb' S'S by blast
    ultimately show ?thesis unfolding cc_invariant_def using it1 it2 bk' by blast
  qed
  show "fst ` set (prev_representatives_table (cc_iteration N st))
           \<subseteq> fst ` set (prev_representatives_table st)"
    unfolding it1 tab using S'S by simp
  have fin: "finite S" by (rule finite_table_nodes[OF tab])
  have w: "table_weight N (prev_representatives_table st) =
           (\<Sum>n \<in> S. nat (rep n - lower_bound N) + 1)"
    by (rule table_weight_table_of[OF tab])
  have w': "table_weight N (prev_representatives_table (cc_iteration N st)) =
           (\<Sum>n \<in> S'. nat (rep' n - lower_bound N) + 1)"
    by (rule table_weight_table_of[OF it1])
  have mono: "(\<Sum>n \<in> S'. nat (rep n - lower_bound N) + 1) \<le> (\<Sum>n \<in> S. nat (rep n - lower_bound N) + 1)"
    using fin S'S by (intro sum_mono2) auto
  have term_le: "nat (rep' n - lower_bound N) + 1 \<le> nat (rep n - lower_bound N) + 1"
    if "n \<in> S'" for n
  proof -
    from that S'S have "rep' n \<le> rep n" using le by blast
    then show ?thesis by linarith
  qed
  have "(\<Sum>n \<in> S'. nat (rep' n - lower_bound N) + 1) \<le> (\<Sum>n \<in> S'. nat (rep n - lower_bound N) + 1)"
    by (intro sum_mono term_le)
  with mono show "table_weight N (prev_representatives_table (cc_iteration N st))
           \<le> table_weight N (prev_representatives_table st)"
    unfolding w w' by linarith
  assume "root_rows_count (cc_iteration N st) > 0"
  then obtain n where n: "n \<in> S'" "rm' n" using it5 by blast
  then have "rep' n < rep n" using le[of n] S'S unfolding rm'_def by auto
  moreover have "lower_bound N \<le> rep' n" using lb' n(1) S'S by blast
  ultimately have strict: "nat (rep' n - lower_bound N) + 1 < nat (rep n - lower_bound N) + 1"
    by linarith
  have "finite S'" using fin S'S by (rule rev_finite_subset)
  moreover have "\<forall>x \<in> S'. nat (rep' x - lower_bound N) + 1 \<le> nat (rep x - lower_bound N) + 1"
    using term_le by blast
  ultimately have "(\<Sum>n \<in> S'. nat (rep' n - lower_bound N) + 1)
        < (\<Sum>n \<in> S'. nat (rep n - lower_bound N) + 1)"
    using n(1) strict by (intro sum_strict_mono_ex1) auto
  with mono show "table_weight N (prev_representatives_table (cc_iteration N st))
           < table_weight N (prev_representatives_table st)"
    unfolding w w' by linarith
qed

lemma cc_measure_decreases:
  assumes wf: "neighbours_wf N" and inv: "cc_invariant N st"
    and go: "root_rows_count st > 0"
  shows "cc_measure N (cc_iteration N st) < cc_measure N st"
proof (cases "root_rows_count (cc_iteration N st) > 0")
  case True
  from cc_invariant_step(4)[OF wf inv True] go show ?thesis
    unfolding cc_measure_def by simp
next
  case False
  with cc_invariant_step(3)[OF wf inv] go show ?thesis
    unfolding cc_measure_def by simp
qed

lemma cc_loop_returns:
  assumes wf: "neighbours_wf N"
  shows "\<exists>st. while_option (\<lambda>st. root_rows_count st > 0) (cc_iteration N) (cc_initial_state N)
            = Some st"
proof (rule measure_while_option_Some[where P = "cc_invariant N" and f = "cc_measure N"])
  fix s assume "cc_invariant N s" "0 < root_rows_count s"
  then show "cc_invariant N (cc_iteration N s) \<and> cc_measure N (cc_iteration N s) < cc_measure N s"
    using cc_invariant_step(1)[OF wf] cc_measure_decreases[OF wf] by blast
next
  show "cc_invariant N (cc_initial_state N)" by (rule cc_invariant_initial[OF wf])
qed

lemma cc_invariant_reached:
  assumes wf: "neighbours_wf N"
  shows "cc_invariant N ((cc_iteration N ^^ k) (cc_initial_state N))"
proof (induction k)
  case 0
  then show ?case using cc_invariant_initial[OF wf] by simp
next
  case (Suc k)
  then show ?case using cc_invariant_step(1)[OF wf] by simp
qed

lemma cc_loop_final_count:
  assumes wf: "neighbours_wf N"
    and res: "while_option (\<lambda>st. root_rows_count st > 0) (cc_iteration N) (cc_initial_state N)
            = Some st"
  shows "root_rows_count st = 0"
    and "cc_assess_exit_condition (prev_representatives_table st) = 0"
proof -
  let ?b = "\<lambda>st. root_rows_count st > 0"
  let ?P = "\<lambda>st. cc_invariant N st \<and>
      root_rows_count st = cc_assess_exit_condition (prev_representatives_table st)"
  have b0: "?b (cc_initial_state N)" by (simp add: initial_state_table(4)[OF wf])
  from res have res1: "while_option ?b (cc_iteration N) (cc_iteration N (cc_initial_state N)) = Some st"
    using b0 by (subst (asm) while_option_unfold) simp
  have step: "\<And>s. cc_invariant N s \<Longrightarrow> ?P (cc_iteration N s)"
  proof -
    fix s assume inv: "cc_invariant N s"
    then obtain S rep rm where
      "set (prev_representatives_table s) = table_of S rep rm"
      "distinct (map fst (prev_representatives_table s))"
      "S \<subseteq> fst ` set N"
      "\<forall>n m. (n, Some m) \<in> set N \<and> m \<in> S \<longrightarrow> n \<in> S"
      unfolding cc_invariant_def by blast
    from cc_iteration_tables(4)[OF wf this] cc_invariant_step(1)[OF wf inv]
    show "?P (cc_iteration N s)" by simp
  qed
  have "?P st"
  proof (rule while_option_rule[where P = ?P, OF _ res1])
    show "?P (cc_iteration N (cc_initial_state N))"
      by (rule step[OF cc_invariant_initial[OF wf]])
  next
    fix s assume "?P s" "?b s"
    then show "?P (cc_iteration N s)" using step by blast
  qed
  moreover from while_option_stop[OF res] show "root_rows_count st = 0" by simp
  ultimately show "cc_assess_exit_condition (prev_representatives_table st) = 0" by simp
qed

subsection \<open>The neighbours table, the first representatives and the end of the loop\<close>

text \<open>
  Claim C3, as it stands, fails: with the single node 1 and the edge (1, 2) the pair (2, 1)
  is not in the neighbours table, because the table has rows only for nodes of the node
  table.
\<close>

theorem neighbours_lack_outside_endpoint_counterexample:
  "(1, 2) \<in> set (filtered_edges None [(1, 2, 1)]) \<and>
   (2, Some 1) \<notin> set (cc_neighbours [1] [(1, 2, 1)] None)"
  by code_simp

text \<open>
  Claim C3, amended. The neighbours table that \<^verbatim>\<open>solve_connected_components\<close> builds with
  \<^verbatim>\<open>_cc_generate_neighbours_representation\<close> contains the self-loop \<open>(n, n)\<close> for every node
  \<open>n\<close> of the node table and, for every filtered edge \<open>(a, b)\<close>, the pair \<open>(a, b)\<close> when \<open>a\<close>
  is in the node table and the pair \<open>(b, a)\<close> when \<open>b\<close> is; its left column holds nodes of
  the node table only.
\<close>

theorem neighbours_self_loops_and_both_directions:
  "let neighbours = cc_neighbours nodes_table edges_table t in
   (\<forall>n \<in> set nodes_table. (n, Some n) \<in> set neighbours) \<and>
   (\<forall>(a, b) \<in> set (filtered_edges t edges_table).
      (a \<in> set nodes_table \<longrightarrow> (a, Some b) \<in> set neighbours) \<and>
      (b \<in> set nodes_table \<longrightarrow> (b, Some a) \<in> set neighbours)) \<and>
   fst ` set neighbours = set nodes_table"
  unfolding Let_def fst_set_cc_neighbours
  by (auto simp: set_cc_neighbours)

theorem neighbours_self_loops_and_both_directions_witness:
  "(1, Some 1) \<in> set (cc_neighbours [1, 2] [(1, 2, 1)] None) \<and>
   (1, Some 2) \<in> set (cc_neighbours [1, 2] [(1, 2, 1)] None) \<and>
   (2, Some 1) \<in> set (cc_neighbours [1, 2] [(1, 2, 1)] None)"
  using neighbours_self_loops_and_both_directions [of "[1, 2]" "[(1, 2, 1)]" None]
  by (simp add: Let_def filtered_edges_def)

text \<open>
  Claim C2. For every node \<open>n\<close> of the node table, the table \<^verbatim>\<open>representatives\<close> has
  exactly one representative for \<open>n\<close>: the least of \<open>n\<close> and the nodes joined to \<open>n\<close> by a
  filtered edge; it is not greater than \<open>n\<close>.
\<close>

theorem initial_representative_is_least_neighbour:
  assumes "n \<in> set nodes_table"
  shows "let representatives =
               cc_generate_initial_representatives_table
                 (cc_neighbours nodes_table edges_table t);
             least = Min ({n} \<union> {m. (n, m) \<in> set (filtered_edges t edges_table) \<or>
                                     (m, n) \<in> set (filtered_edges t edges_table)})
         in (n, Some least) \<in> set representatives \<and>
            (\<forall>v. (n, v) \<in> set representatives \<longrightarrow> v = Some least) \<and>
            least \<le> n"
proof -
  let ?N = "cc_neighbours nodes_table edges_table t"
  let ?A = "{n} \<union> {m. (n, m) \<in> set (filtered_edges t edges_table) \<or>
                       (m, n) \<in> set (filtered_edges t edges_table)}"
  have nb: "nbrs ?N n = ?A" using assms by (auto simp: nbrs_cc_neighbours)
  have rows: "set (cc_generate_initial_representatives_table ?N) =
              (\<lambda>n. (n, Some (initial_rep ?N n))) ` set nodes_table"
    using set_initial_representatives[OF neighbours_wf_cc_neighbours]
    unfolding fst_set_cc_neighbours .
  have least: "initial_rep ?N n = Min ?A" unfolding initial_rep_def nb ..
  have "finite ?A" unfolding nb[symmetric] by simp
  then have "Min ?A \<le> n" by (intro Min_le) simp_all
  moreover have "(n, Some (Min ?A)) \<in> set (cc_generate_initial_representatives_table ?N)"
    unfolding rows least[symmetric] using assms by blast
  moreover have "v = Some (Min ?A)"
    if "(n, v) \<in> set (cc_generate_initial_representatives_table ?N)" for v
    using that unfolding rows least[symmetric] by auto
  ultimately show ?thesis unfolding Let_def by blast
qed

theorem initial_representative_is_least_neighbour_witness:
  "(3::int) \<in> set [1, 2, 3] \<and>
   (3, Some 1) \<in> set (cc_generate_initial_representatives_table
                        (cc_neighbours [1, 2, 3] [(3, 1, 1), (2, 3, 1)] None))"
proof -
  have h: "(3::int) \<in> set [1, 2, 3]" by simp
  have m: "Min ({3} \<union> {m. (3, m) \<in> set (filtered_edges None [(3, 1, 1), (2, 3, 1)]) \<or>
                          (m, 3) \<in> set (filtered_edges None [(3, 1, 1), (2, 3, 1)])}) = (1::int)"
  proof -
    have "{3} \<union> {m. (3, m) \<in> set (filtered_edges None [(3, 1, 1), (2, 3, 1)]) \<or>
                          (m, 3) \<in> set (filtered_edges None [(3, 1, 1), (2, 3, 1)])}
          = {3, 1, 2 :: int}"
      by (auto simp: filtered_edges_def)
    then show ?thesis by simp
  qed
  from initial_representative_is_least_neighbour [OF h, of "[(3, 1, 1), (2, 3, 1)]" None]
  show ?thesis unfolding Let_def m using h by blast
qed

text \<open>
  Claim C4, as it stands, fails: on the graph \<open>rising_count_neighbours\<close> the first pass of
  the loop leaves all 7 nodes in the remaining table with a rep\_match count of 1 (only
  node 4 changed its representative), and the second pass leaves the same 7 nodes with a
  count of 2 (nodes 6 and 8 changed): the unstable set did not shrink and the count went up.
\<close>

theorem rep_match_count_rises_counterexample:
  "root_rows_count (cc_iteration rising_count_neighbours
               (cc_initial_state rising_count_neighbours)) = 1 \<and>
   set (prev_representatives_table (cc_iteration rising_count_neighbours
               (cc_initial_state rising_count_neighbours))) =
     {(3, Some 3, Some False), (4, Some 3, Some True), (5, Some 3, Some False),
      (6, Some 4, Some False), (7, Some 3, Some False), (8, Some 4, Some False),
      (9, Some 4, Some False)} \<and>
   root_rows_count (cc_iteration rising_count_neighbours (cc_iteration rising_count_neighbours
               (cc_initial_state rising_count_neighbours))) = 2 \<and>
   set (prev_representatives_table (cc_iteration rising_count_neighbours
              (cc_iteration rising_count_neighbours
               (cc_initial_state rising_count_neighbours)))) =
     {(3, Some 3, Some False), (4, Some 3, Some False), (5, Some 3, Some False),
      (6, Some 3, Some True), (7, Some 3, Some False), (8, Some 3, Some True),
      (9, Some 4, Some False)}"
  by code_simp

text \<open>
  Claim C4, amended. For every node table and edge table the loop of
  \<^verbatim>\<open>solve_connected_components\<close> ends: after finitely many passes (at least one) the count of
  rows with rep\_match in the remaining table is zero. No pass adds a node to the remaining
  table or raises the weight of the table (the sum, over its rows, of the distance of the
  representative from a fixed lower bound, plus one), and a pass that leaves a count above
  zero lowers that weight strictly.
\<close>

theorem cc_loop_terminates:
  "let neighbours = cc_neighbours nodes_table edges_table t;
       state_after = (\<lambda>k. (cc_iteration neighbours ^^ k) (cc_initial_state neighbours))
   in (\<exists>k. while_option (\<lambda>st. root_rows_count st > 0) (cc_iteration neighbours)
              (cc_initial_state neighbours) = Some (state_after (Suc k)) \<and>
            root_rows_count (state_after (Suc k)) = 0 \<and>
            cc_assess_exit_condition (prev_representatives_table (state_after (Suc k))) = 0) \<and>
      (\<forall>k. fst ` set (prev_representatives_table (state_after (Suc k)))
              \<subseteq> fst ` set (prev_representatives_table (state_after k)) \<and>
            table_weight neighbours (prev_representatives_table (state_after (Suc k)))
              \<le> table_weight neighbours (prev_representatives_table (state_after k)) \<and>
            (root_rows_count (state_after (Suc k)) > 0 \<longrightarrow>
             table_weight neighbours (prev_representatives_table (state_after (Suc k)))
               < table_weight neighbours (prev_representatives_table (state_after k))))"
proof -
  define N where "N = cc_neighbours nodes_table edges_table t"
  define state_after where "state_after k = (cc_iteration N ^^ k) (cc_initial_state N)" for k
  have wf: "neighbours_wf N" unfolding N_def by (rule neighbours_wf_cc_neighbours)
  from cc_loop_returns[OF wf] obtain st where
    st: "while_option (\<lambda>st. root_rows_count st > 0) (cc_iteration N) (cc_initial_state N) = Some st"
    by blast
  from while_option_stop2[OF st] obtain j where j: "st = (cc_iteration N ^^ j) (cc_initial_state N)"
    by blast
  note fin = cc_loop_final_count[OF wf st]
  have "j \<noteq> 0"
  proof
    assume "j = 0"
    with j fin(1) initial_state_table(4)[OF wf] show False by simp
  qed
  then obtain k where "j = Suc k" by (cases j) auto
  with j have "st = state_after (Suc k)" unfolding state_after_def by simp
  with st fin have first: "\<exists>k. while_option (\<lambda>st. root_rows_count st > 0) (cc_iteration N)
              (cc_initial_state N) = Some (state_after (Suc k)) \<and>
            root_rows_count (state_after (Suc k)) = 0 \<and>
            cc_assess_exit_condition (prev_representatives_table (state_after (Suc k))) = 0"
    by blast
  have suc: "state_after (Suc k) = cc_iteration N (state_after k)" for k
    unfolding state_after_def by simp
  have inv: "cc_invariant N (state_after k)" for k
    unfolding state_after_def by (rule cc_invariant_reached[OF wf])
  have second: "fst ` set (prev_representatives_table (state_after (Suc k)))
              \<subseteq> fst ` set (prev_representatives_table (state_after k)) \<and>
            table_weight N (prev_representatives_table (state_after (Suc k)))
              \<le> table_weight N (prev_representatives_table (state_after k)) \<and>
            (root_rows_count (state_after (Suc k)) > 0 \<longrightarrow>
             table_weight N (prev_representatives_table (state_after (Suc k)))
               < table_weight N (prev_representatives_table (state_after k)))" for k
    unfolding suc using cc_invariant_step(2,3,4)[OF wf inv[of k]] by blast
  have "(\<exists>k. while_option (\<lambda>st. root_rows_count st > 0) (cc_iteration N)
              (cc_initial_state N) = Some (state_after (Suc k)) \<and>
            root_rows_count (state_after (Suc k)) = 0 \<and>
            cc_assess_exit_condition (prev_representatives_table (state_after (Suc k))) = 0) \<and>
      (\<forall>k. fst ` set (prev_representatives_table (state_after (Suc k)))
              \<subseteq> fst ` set (prev_representatives_table (state_after k)) \<and>
            table_weight N (prev_representatives_table (state_after (Suc k)))
              \<le> table_weight N (prev_representatives_table (state_after k)) \<and>
            (root_rows_count (state_after (Suc k)) > 0 \<longrightarrow>
             table_weight N (prev_representatives_table (state_after (Suc k)))
               < table_weight N (prev_representatives_table (state_after k))))"
    using first second by (intro conjI allI) blast+
  then show ?thesis
    unfolding Let_def N_def state_after_def .
qed

theorem cc_loop_terminates_witness:
  "\<exists>k. while_option (\<lambda>st. root_rows_count st > 0) (cc_iteration rising_count_neighbours)
         (cc_initial_state rising_count_neighbours) =
       Some ((cc_iteration rising_count_neighbours ^^ Suc k)
               (cc_initial_state rising_count_neighbours))"
  using cc_loop_terminates [of "[3, 4, 5, 6, 7, 8, 9]"
      "[(4, 8, 1), (5, 4, 1), (5, 7, 1), (6, 4, 1), (7, 3, 1), (8, 9, 1)]" None]
  unfolding Let_def rising_count_neighbours_def by blast

subsection \<open>Components of a symmetric neighbours table\<close>

lemma component_refl [simp]: "n \<in> component N n"
  by (simp add: component_def)

lemma component_step:
  assumes "m \<in> component N n" and "k \<in> nbrs N m"
  shows "k \<in> component N n"
proof -
  from assms(2) have "(m, k) \<in> {(a, b). (a, Some b) \<in> set N}" by (simp add: nbrs_def)
  with assms(1) show ?thesis unfolding component_def
    by (auto intro: rtrancl_into_rtrancl)
qed

lemma component_trans:
  assumes "m \<in> component N n" and "k \<in> component N m"
  shows "k \<in> component N n"
  using assms unfolding component_def by (auto intro: rtrancl_trans)

lemma component_sym:
  assumes "neighbours_symmetric N" and "m \<in> component N n"
  shows "n \<in> component N m"
proof -
  have "sym {(a, b). (a, Some b) \<in> set N}"
    using assms(1) unfolding neighbours_symmetric_def sym_def by blast
  then have "sym ({(a, b). (a, Some b) \<in> set N}\<^sup>*)" by (rule sym_rtrancl)
  with assms(2) show ?thesis unfolding component_def sym_def by blast
qed

lemma component_eq:
  assumes "neighbours_symmetric N" and "m \<in> component N n"
  shows "component N m = component N n"
  using component_trans[OF assms(2)] component_trans[OF component_sym[OF assms]] by blast

lemma component_closed:
  assumes "\<And>x y. P x \<Longrightarrow> y \<in> nbrs N x \<Longrightarrow> P y" and "P n" and "m \<in> component N n"
  shows "P m"
proof -
  from assms(3) have "(n, m) \<in> {(a, b). (a, Some b) \<in> set N}\<^sup>*" by (simp add: component_def)
  then show ?thesis
  proof (induction rule: rtrancl_induct)
    case base
    then show ?case by (rule assms(2))
  next
    case (step y z)
    then have "z \<in> nbrs N y" by (simp add: nbrs_def)
    with step.IH show ?case by (rule assms(1))
  qed
qed

lemma finite_component [simp]: "finite (component N n)"
proof -
  have "m \<in> insert n ((\<lambda>row. the (snd row)) ` set N)" if "m \<in> component N n" for m
  proof (rule component_closed[where P = "\<lambda>m. m \<in> insert n ((\<lambda>row. the (snd row)) ` set N)",
        OF _ _ that])
    fix x y assume "y \<in> nbrs N x"
    then have "(x, Some y) \<in> set N" by (simp add: nbrs_def)
    then show "y \<in> insert n ((\<lambda>row. the (snd row)) ` set N)" by force
  qed simp
  then have "component N n \<subseteq> insert n ((\<lambda>row. the (snd row)) ` set N)" by blast
  then show ?thesis by (rule finite_subset) simp
qed

lemma Min_component_in: "Min (component N n) \<in> component N n"
proof (rule Min_in)
  show "finite (component N n)" by simp
  have "n \<in> component N n" by simp
  then show "component N n \<noteq> {}" by blast
qed

lemma Min_component_le: "m \<in> component N n \<Longrightarrow> Min (component N n) \<le> m"
  by (rule Min_le) simp_all

lemma symmetric_nbrs_in_table:
  assumes "neighbours_symmetric N" and "m \<in> nbrs N n"
  shows "m \<in> fst ` set N" and "n \<in> nbrs N m"
proof -
  from assms have "(m, Some n) \<in> set N" unfolding neighbours_symmetric_def nbrs_def by blast
  then show "m \<in> fst ` set N" and "n \<in> nbrs N m" by (force simp: nbrs_def)+
qed

subsection \<open>The invariant for a symmetric neighbours table\<close>

lemma cc_invariant_clusters_initial:
  assumes wf: "neighbours_wf N" and sym: "neighbours_symmetric N"
  shows "cc_invariant_clusters N (cc_initial_state N)"
proof -
  let ?V = "fst ` set N"
  let ?rep = "first_iter_rep N"
  let ?rm = "\<lambda>n. first_iter_rep N n \<noteq> initial_rep N n"
  have closed: "\<forall>n \<in> ?V. nbrs N n \<subseteq> ?V"
    using symmetric_nbrs_in_table(1)[OF sym] by blast
  have fin: "finite (initial_rep N ` (nbrs N n \<inter> ?V))" for n by simp
  have le_init: "?rep n \<le> initial_rep N m" if "n \<in> ?V" "m \<in> nbrs N n" for n m
  proof -
    from that closed have "initial_rep N m \<in> initial_rep N ` (nbrs N n \<inter> ?V)" by blast
    with fin show ?thesis unfolding first_iter_rep_def by (rule Min_le)
  qed
  have rep: "?rep n \<in> component N n \<and> ?rep n \<le> n" if n: "n \<in> ?V" for n
  proof
    from first_iter_rep_in[OF wf n] obtain m where
      m: "m \<in> nbrs N n" "m \<in> ?V" "?rep n = initial_rep N m" by blast
    from m(1) have "m \<in> component N n" using component_step[OF component_refl] by blast
    from component_step[OF this initial_rep_in_nbrs[OF wf m(2)]] m(3)
    show "?rep n \<in> component N n" by simp
    have "initial_rep N n \<le> n"
      unfolding initial_rep_def using nbrs_self[OF wf n] by (intro Min_le) simp_all
    with le_init[OF n nbrs_self[OF wf n]] show "?rep n \<le> n" by linarith
  qed
  have settled: "\<forall>n \<in> ?V. \<forall>m \<in> nbrs N n. \<not> ?rm m \<longrightarrow> ?rep n \<le> ?rep m"
    using le_init by auto
  show ?thesis unfolding cc_invariant_clusters_def
    using initial_state_table(1,2)[OF wf] closed rep settled
    by (intro exI[of _ ?V] exI[of _ ?rep] exI[of _ ?rm])
       (simp add: initial_state_table(3)[OF wf])
qed

lemma cc_invariant_clusters_step:
  assumes wf: "neighbours_wf N" and sym: "neighbours_symmetric N"
    and inv: "cc_invariant_clusters N st"
  shows "cc_invariant_clusters N (cc_iteration N st)"
    and "root_rows_count (cc_iteration N st) = 0 \<Longrightarrow>
         prev_representatives_table (cc_iteration N st) = []"
proof -
  let ?V = "fst ` set N"
  from inv have "\<exists>S rep rm.
     set (prev_representatives_table st) = table_of S rep rm \<and>
     distinct (map fst (prev_representatives_table st)) \<and>
     S \<subseteq> ?V \<and>
     (\<forall>n \<in> S. nbrs N n \<subseteq> S) \<and>
     (\<forall>n \<in> S. rep n \<in> component N n \<and> rep n \<le> n) \<and>
     (\<forall>n \<in> S. \<forall>m \<in> nbrs N n. \<not> rm m \<longrightarrow> rep n \<le> rep m) \<and>
     distinct (map fst (concat (converged_repr_tables st))) \<and>
     fst ` set (concat (converged_repr_tables st)) = ?V - S \<and>
     (\<forall>row \<in> set (concat (converged_repr_tables st)).
           fst (snd row) = Some (Min (component N (fst row))))"
    unfolding cc_invariant_clusters_def .
  then obtain S where "\<exists>rep rm.
     set (prev_representatives_table st) = table_of S rep rm \<and>
     distinct (map fst (prev_representatives_table st)) \<and>
     S \<subseteq> ?V \<and>
     (\<forall>n \<in> S. nbrs N n \<subseteq> S) \<and>
     (\<forall>n \<in> S. rep n \<in> component N n \<and> rep n \<le> n) \<and>
     (\<forall>n \<in> S. \<forall>m \<in> nbrs N n. \<not> rm m \<longrightarrow> rep n \<le> rep m) \<and>
     distinct (map fst (concat (converged_repr_tables st))) \<and>
     fst ` set (concat (converged_repr_tables st)) = ?V - S \<and>
     (\<forall>row \<in> set (concat (converged_repr_tables st)).
           fst (snd row) = Some (Min (component N (fst row))))" ..
  then obtain rep where "\<exists>rm.
     set (prev_representatives_table st) = table_of S rep rm \<and>
     distinct (map fst (prev_representatives_table st)) \<and>
     S \<subseteq> ?V \<and>
     (\<forall>n \<in> S. nbrs N n \<subseteq> S) \<and>
     (\<forall>n \<in> S. rep n \<in> component N n \<and> rep n \<le> n) \<and>
     (\<forall>n \<in> S. \<forall>m \<in> nbrs N n. \<not> rm m \<longrightarrow> rep n \<le> rep m) \<and>
     distinct (map fst (concat (converged_repr_tables st))) \<and>
     fst ` set (concat (converged_repr_tables st)) = ?V - S \<and>
     (\<forall>row \<in> set (concat (converged_repr_tables st)).
           fst (snd row) = Some (Min (component N (fst row))))" ..
  then obtain rm where all:
    "set (prev_representatives_table st) = table_of S rep rm \<and>
     distinct (map fst (prev_representatives_table st)) \<and>
     S \<subseteq> ?V \<and>
     (\<forall>n \<in> S. nbrs N n \<subseteq> S) \<and>
     (\<forall>n \<in> S. rep n \<in> component N n \<and> rep n \<le> n) \<and>
     (\<forall>n \<in> S. \<forall>m \<in> nbrs N n. \<not> rm m \<longrightarrow> rep n \<le> rep m) \<and>
     distinct (map fst (concat (converged_repr_tables st))) \<and>
     fst ` set (concat (converged_repr_tables st)) = ?V - S \<and>
     (\<forall>row \<in> set (concat (converged_repr_tables st)).
           fst (snd row) = Some (Min (component N (fst row))))" ..
  from all have tab: "set (prev_representatives_table st) = table_of S rep rm" by (rule conjunct1)
  note all = conjunct2[OF all]
  from all have dist: "distinct (map fst (prev_representatives_table st))" by (rule conjunct1)
  note all = conjunct2[OF all]
  from all have sub: "S \<subseteq> ?V" by (rule conjunct1)
  note all = conjunct2[OF all]
  from all have closed: "\<forall>n \<in> S. nbrs N n \<subseteq> S" by (rule conjunct1)
  note all = conjunct2[OF all]
  from all have rep: "\<forall>n \<in> S. rep n \<in> component N n \<and> rep n \<le> n" by (rule conjunct1)
  note all = conjunct2[OF all]
  from all have settled: "\<forall>n \<in> S. \<forall>m \<in> nbrs N n. \<not> rm m \<longrightarrow> rep n \<le> rep m"
    by (rule conjunct1)
  note all = conjunct2[OF all]
  from all have cdist: "distinct (map fst (concat (converged_repr_tables st)))" by (rule conjunct1)
  note all = conjunct2[OF all]
  from all have cnodes: "fst ` set (concat (converged_repr_tables st)) = ?V - S"
    by (rule conjunct1)
  from all have crows: "\<forall>row \<in> set (concat (converged_repr_tables st)).
           fst (snd row) = Some (Min (component N (fst row)))" by (rule conjunct2)
  have bk: "\<forall>n m. (n, Some m) \<in> set N \<and> m \<in> S \<longrightarrow> n \<in> S"
  proof (intro allI impI)
    fix n m assume a: "(n, Some m) \<in> set N \<and> m \<in> S"
    then have "m \<in> nbrs N n" by (simp add: nbrs_def)
    from symmetric_nbrs_in_table(2)[OF sym this] a closed show "n \<in> S" by blast
  qed
  define rep' where "rep' = next_rep N S rep rm"
  define rm' where "rm' = (\<lambda>n. rep' n \<noteq> rep n)"
  define S' where "S' = {n \<in> S. \<not> stable_rep N S rep' (rep' n)}"
  have it1: "set (prev_representatives_table (cc_iteration N st)) = table_of S' rep' rm'"
    unfolding S'_def rm'_def rep'_def by (rule cc_iteration_tables(1)[OF wf tab dist sub bk])
  have it2: "distinct (map fst (prev_representatives_table (cc_iteration N st)))"
    by (rule cc_iteration_tables(2)[OF wf tab dist sub bk])
  have "\<exists>stable_rows. converged_repr_tables (cc_iteration N st) =
            converged_repr_tables st @ [stable_rows] \<and>
            set stable_rows = table_of (S - S') rep' rm' \<and> distinct (map fst stable_rows)"
    unfolding S'_def rm'_def rep'_def by (rule cc_iteration_tables(3)[OF wf tab dist sub bk])
  then obtain stable_rows where
    conv: "converged_repr_tables (cc_iteration N st) = converged_repr_tables st @ [stable_rows]"
    and stset: "set stable_rows = table_of (S - S') rep' rm'"
    and stdist: "distinct (map fst stable_rows)" by blast
  have it5: "root_rows_count (cc_iteration N st) > 0 \<longleftrightarrow> (\<exists>n \<in> S'. rm' n)"
    unfolding S'_def rm'_def rep'_def by (rule cc_iteration_tables(5)[OF wf tab dist sub bk])
  have S'S: "S' \<subseteq> S" unfolding S'_def by blast
  have self: "n \<in> nbrs N n" if "n \<in> S" for n
    using nbrs_self[OF wf] sub that by blast
  have le: "rep' n \<le> rep n" if "n \<in> S" for n
    unfolding rep'_def by (rule next_rep_props(1)[OF wf sub that])
  \<comment> \<open>the new representative of a node is below the old one of every neighbour\<close>
  have below: "rep' n \<le> rep m" if "n \<in> S" "m \<in> nbrs N n" for n m
  proof (cases "rm m")
    case True
    from that closed have "m \<in> S" by blast
    from next_rep_props(3)[where rm = rm and rep = rep, OF wf sub that(1) that(2) this True]
    show ?thesis unfolding rep'_def .
  next
    case False
    with settled that have "rep n \<le> rep m" by blast
    with le[OF that(1)] show ?thesis by linarith
  qed
  have rep'_in: "rep' n \<in> component N n \<and> rep' n \<le> n" if "n \<in> S" for n
  proof
    from next_rep_props(2)[OF wf sub that, of rep rm]
    obtain m where m: "m \<in> nbrs N n" "m \<in> S" "rep' n = rep m" unfolding rep'_def by blast
    from m(1) have "m \<in> component N n" using component_step[OF component_refl] by blast
    moreover from rep m(2) have "rep m \<in> component N m" by blast
    ultimately show "rep' n \<in> component N n" unfolding m(3) by (rule component_trans)
    from le[OF that] rep that show "rep' n \<le> n" by force
  qed
  \<comment> \<open>a stable group is a whole component, named by its least node\<close>
  have stable_min: "rep' n = Min (component N n)"
    if n: "n \<in> S" and st: "stable_rep N S rep' (rep' n)" for n
  proof -
    have "m \<in> S \<and> rep' m = rep' n" if "m \<in> component N n" for m
    proof (rule component_closed[where P = "\<lambda>m. m \<in> S \<and> rep' m = rep' n", OF _ _ that])
      fix x y assume "x \<in> S \<and> rep' x = rep' n" "y \<in> nbrs N x"
      then show "y \<in> S \<and> rep' y = rep' n" using stable_rep_closed[OF st, of x y] by blast
    next
      show "n \<in> S \<and> rep' n = rep' n" using n by simp
    qed
    with Min_component_in[of N n]
    have m: "Min (component N n) \<in> S" "rep' (Min (component N n)) = rep' n" by blast+
    from rep'_in[OF m(1)] have "rep' (Min (component N n)) \<in> component N (Min (component N n))"
      "rep' (Min (component N n)) \<le> Min (component N n)" by blast+
    moreover from this(1) have "rep' (Min (component N n)) \<in> component N n"
      using component_trans[OF Min_component_in] by blast
    then have "Min (component N n) \<le> rep' (Min (component N n))" by (rule Min_component_le)
    ultimately show ?thesis using m(2) by linarith
  qed
  have closed': "\<forall>n \<in> S'. nbrs N n \<subseteq> S'"
  proof (intro ballI subsetI)
    fix n m assume n: "n \<in> S'" and m: "m \<in> nbrs N n"
    with closed S'S have mS: "m \<in> S" by blast
    show "m \<in> S'"
    proof (rule ccontr)
      assume "m \<notin> S'"
      with mS have st: "stable_rep N S rep' (rep' m)" unfolding S'_def by simp
      from stable_rep_closed[OF st mS refl symmetric_nbrs_in_table(2)[OF sym m]]
      have "n \<in> S \<and> rep' n = rep' m" .
      with st have "n \<notin> S'" unfolding S'_def by simp
      with n show False by simp
    qed
  qed
  have settled': "\<forall>n \<in> S'. \<forall>m \<in> nbrs N n. \<not> rm' m \<longrightarrow> rep' n \<le> rep' m"
  proof (intro ballI impI)
    fix n m assume "n \<in> S'" "m \<in> nbrs N n" "\<not> rm' m"
    then have "rep' n \<le> rep m" "rep' m = rep m" using below S'S unfolding rm'_def by auto
    then show "rep' n \<le> rep' m" by simp
  qed
  have cc: "concat (converged_repr_tables (cc_iteration N st)) =
            concat (converged_repr_tables st) @ stable_rows" unfolding conv by simp
  have stnodes: "fst ` set stable_rows = S - S'" unfolding stset by simp
  have cdist': "distinct (map fst (concat (converged_repr_tables (cc_iteration N st))))"
    unfolding cc map_append distinct_append set_map cnodes stnodes
    using cdist stdist by blast
  have cnodes': "fst ` set (concat (converged_repr_tables (cc_iteration N st))) = ?V - S'"
    unfolding cc set_append image_Un cnodes stnodes using S'S sub by blast
  have crows': "\<forall>row \<in> set (concat (converged_repr_tables (cc_iteration N st))).
           fst (snd row) = Some (Min (component N (fst row)))"
  proof
    fix row assume "row \<in> set (concat (converged_repr_tables (cc_iteration N st)))"
    then consider "row \<in> set (concat (converged_repr_tables st))" | "row \<in> set stable_rows"
      unfolding cc by auto
    then show "fst (snd row) = Some (Min (component N (fst row)))"
    proof cases
      case 1
      with crows show ?thesis by blast
    next
      case 2
      then obtain n where n: "n \<in> S" "n \<notin> S'" "row = (n, Some (rep' n), Some (rm' n))"
        unfolding stset table_of_iff by blast
      then have "stable_rep N S rep' (rep' n)" unfolding S'_def by simp
      from stable_min[OF n(1) this] n(3) show ?thesis by simp
    qed
  qed
  show "cc_invariant_clusters N (cc_iteration N st)"
  proof -
    have "S' \<subseteq> ?V" using S'S sub by blast
    moreover have "\<forall>n \<in> S'. rep' n \<in> component N n \<and> rep' n \<le> n"
      using rep'_in S'S by blast
    ultimately show ?thesis unfolding cc_invariant_clusters_def
      using it1 it2 closed' settled' cdist' cnodes' crows'
      by (intro exI[of _ S'] exI[of _ rep'] exI[of _ rm'] conjI)
  qed
  assume "root_rows_count (cc_iteration N st) = 0"
  with it5 have same: "\<forall>n \<in> S'. rep' n = rep n" unfolding rm'_def by simp
  have "S' = {}"
  proof (rule ccontr)
    assume "S' \<noteq> {}"
    then obtain n where n: "n \<in> S'" by blast
    \<comment> \<open>neighbours inside the remaining table have the same representative\<close>
    have eq: "rep' y = rep' x" if "x \<in> S'" "y \<in> nbrs N x" for x y
    proof -
      from that closed' have y: "y \<in> S'" by blast
      from below[of x y] that S'S same y have "rep' x \<le> rep' y" by force
      moreover from below[of y x] symmetric_nbrs_in_table(2)[OF sym that(2)] that(1) S'S same y
      have "rep' y \<le> rep' x" by force
      ultimately show ?thesis by simp
    qed
    have comp: "m \<in> S' \<and> rep' m = rep' n" if "m \<in> component N n" for m
    proof (rule component_closed[where P = "\<lambda>m. m \<in> S' \<and> rep' m = rep' n", OF _ _ that])
      fix x y assume "x \<in> S' \<and> rep' x = rep' n" "y \<in> nbrs N x"
      then show "y \<in> S' \<and> rep' y = rep' n" using eq[of x y] closed' by auto
    next
      show "n \<in> S' \<and> rep' n = rep' n" using n by simp
    qed
    have group: "x \<in> component N n" if "x \<in> S" "rep' x = rep' n" for x
    proof -
      from rep'_in[OF that(1)] that(2) have "rep' n \<in> component N x" by simp
      from component_sym[OF sym this] have "x \<in> component N (rep' n)" .
      moreover from rep'_in[of n] n S'S have "rep' n \<in> component N n" by blast
      ultimately show ?thesis using component_trans by blast
    qed
    have "stable_rep N S rep' (rep' n)" unfolding stable_rep_def
    proof (intro set_eqI iffI)
      fix x assume "x \<in> {x \<in> S. rep' x = rep' n}"
      then show "x \<in> (\<Union>x \<in> {x \<in> S. rep' x = rep' n}. nbrs N x)" using self by blast
    next
      fix y assume "y \<in> (\<Union>x \<in> {x \<in> S. rep' x = rep' n}. nbrs N x)"
      then obtain x where x: "x \<in> S" "rep' x = rep' n" "y \<in> nbrs N x" by blast
      from component_step[OF group[OF x(1,2)] x(3)] have "y \<in> component N n" .
      from comp[OF this] S'S show "y \<in> {x \<in> S. rep' x = rep' n}" by blast
    qed
    with n show False unfolding S'_def by simp
  qed
  with it1 show "prev_representatives_table (cc_iteration N st) = []"
    by (simp add: table_of_def)
qed

subsection \<open>The result of the loop\<close>

lemma cc_loop_result:
  assumes wf: "neighbours_wf N" and sym: "neighbours_symmetric N"
  shows "\<exists>st. while_option (\<lambda>st. root_rows_count st > 0) (cc_iteration N) (cc_initial_state N)
            = Some st \<and>
          distinct (map fst (concat (converged_repr_tables st))) \<and>
          fst ` set (concat (converged_repr_tables st)) = fst ` set N \<and>
          (\<forall>row \<in> set (concat (converged_repr_tables st)).
             fst (snd row) = Some (Min (component N (fst row))))"
proof -
  let ?b = "\<lambda>st. root_rows_count st > 0"
  let ?P = "\<lambda>st. cc_invariant_clusters N st \<and>
      (root_rows_count st = 0 \<longrightarrow> prev_representatives_table st = [])"
  from cc_loop_returns[OF wf] obtain st where
    res: "while_option ?b (cc_iteration N) (cc_initial_state N) = Some st" by blast
  have b0: "?b (cc_initial_state N)" by (simp add: initial_state_table(4)[OF wf])
  from res have res1: "while_option ?b (cc_iteration N) (cc_iteration N (cc_initial_state N)) = Some st"
    using b0 by (subst (asm) while_option_unfold) simp
  have step: "?P (cc_iteration N s)" if "cc_invariant_clusters N s" for s
    using cc_invariant_clusters_step[OF wf sym that] by blast
  have "?P st"
  proof (rule while_option_rule[where P = ?P, OF _ res1])
    show "?P (cc_iteration N (cc_initial_state N))"
      by (rule step[OF cc_invariant_clusters_initial[OF wf sym]])
  next
    fix s assume "?P s" "?b s"
    then show "?P (cc_iteration N s)" using step by blast
  qed
  moreover from while_option_stop[OF res] have "root_rows_count st = 0" by simp
  ultimately have inv: "cc_invariant_clusters N st" and empty: "prev_representatives_table st = []"
    by blast+
  from inv have "\<exists>S rep rm.
     set (prev_representatives_table st) = table_of S rep rm \<and>
     distinct (map fst (prev_representatives_table st)) \<and>
     S \<subseteq> fst ` set N \<and>
     (\<forall>n \<in> S. nbrs N n \<subseteq> S) \<and>
     (\<forall>n \<in> S. rep n \<in> component N n \<and> rep n \<le> n) \<and>
     (\<forall>n \<in> S. \<forall>m \<in> nbrs N n. \<not> rm m \<longrightarrow> rep n \<le> rep m) \<and>
     distinct (map fst (concat (converged_repr_tables st))) \<and>
     fst ` set (concat (converged_repr_tables st)) = fst ` set N - S \<and>
     (\<forall>row \<in> set (concat (converged_repr_tables st)).
           fst (snd row) = Some (Min (component N (fst row))))"
    unfolding cc_invariant_clusters_def .
  then obtain S rep rm where
    tab: "set (prev_representatives_table st) = table_of S rep rm"
    and rest: "distinct (map fst (concat (converged_repr_tables st)))"
      "fst ` set (concat (converged_repr_tables st)) = fst ` set N - S"
      "\<forall>row \<in> set (concat (converged_repr_tables st)).
           fst (snd row) = Some (Min (component N (fst row)))"
    by (elim exE conjE)
  from tab empty have "S = {}" by (simp add: table_of_def)
  with rest res show ?thesis by simp
qed

lemma clustering_output_props:
  "set (clustering_output tables) = (\<lambda>r. (fst (snd r), fst r)) ` set (concat tables)"
  "distinct (map snd (clustering_output tables)) = distinct (map fst (concat tables))"
proof -
  show "set (clustering_output tables) = (\<lambda>r. (fst (snd r), fst r)) ` set (concat tables)"
    unfolding clustering_output_def by simp
  have "distinct (map snd (clustering_output tables)) =
        distinct (map snd (map (\<lambda>r. (fst (snd r), fst r)) (concat tables)))"
    unfolding clustering_output_def by (simp only: distinct_map set_sort distinct_sort)
  also have "map snd (map (\<lambda>r. (fst (snd r), fst r)) (concat tables)) = map fst (concat tables)"
    by (simp add: comp_def)
  finally show "distinct (map snd (clustering_output tables)) = distinct (map fst (concat tables))" .
qed

subsection \<open>Edges between nodes of the node table\<close>

lemma neighbours_symmetric_cc_neighbours:
  assumes "endpoints_in_nodes nodes_table (filtered_edges t edges_table)"
  shows "neighbours_symmetric (cc_neighbours nodes_table edges_table t)"
  using assms unfolding neighbours_symmetric_def endpoints_in_nodes_def set_cc_neighbours
  by fastforce

lemma component_cc_neighbours:
  assumes ends: "endpoints_in_nodes nodes_table (filtered_edges t edges_table)"
    and n: "n \<in> set nodes_table"
  shows "component (cc_neighbours nodes_table edges_table t) n =
           {m. joined_by_path (filtered_edges t edges_table) n m}"
proof -
  let ?F = "set (filtered_edges t edges_table)"
  let ?A = "{(a, b). (a, Some b) \<in> set (cc_neighbours nodes_table edges_table t)}"
  have A: "?A = {(a, b). a \<in> set nodes_table \<and> ((a, b) \<in> ?F \<or> (b, a) \<in> ?F \<or> b = a)}"
    unfolding set_cc_neighbours by auto
  have "(?F \<union> ?F\<inverse>)\<^sup>* = ?A\<^sup>*"
  proof (rule rtrancl_subset[symmetric])
    show "?F \<union> ?F\<inverse> \<subseteq> ?A" unfolding A using ends unfolding endpoints_in_nodes_def by force
    show "?A \<subseteq> (?F \<union> ?F\<inverse>)\<^sup>*" unfolding A by auto
  qed
  then show ?thesis unfolding component_def joined_by_path_def by simp
qed

subsection \<open>The clusters\<close>

text \<open>
  Claim C1, as it stands, fails: with the single node 1 and the edge (1, 2), whose right
  end is not in the node table, the group of node 1 is never found stable, the loop ends
  with node 1 still in the remaining table, and the output has no row: node 1 does not
  appear.
\<close>

theorem node_lost_by_outside_endpoint_counterexample:
  "solve_connected_components [1] [(1, 2, 1)] None = Some []"
  by code_simp

text \<open>
  Claim C1, amended. For every node table and every edge table whose filtered edges
  (those with \<open>match_probability \<ge> t\<close>, all edges when \<open>t\<close> is \<open>None\<close>) join nodes of the node
  table, \<^verbatim>\<open>solve_connected_components\<close> returns; every node appears in exactly one row of
  the result, and no other node does; two rows have the same cluster id if and only if
  their nodes are connected by a path of filtered edges; and the cluster id of a row is the
  least node id among the rows with that cluster id.
\<close>

theorem solve_connected_components_clusters:
  assumes "endpoints_in_nodes nodes_table (filtered_edges t edges_table)"
  shows "\<exists>out. solve_connected_components nodes_table edges_table t = Some out \<and>
     distinct (map snd out) \<and>
     snd ` set out = set nodes_table \<and>
     (\<forall>(c, n) \<in> set out. \<forall>(c', n') \<in> set out.
        c = c' \<longleftrightarrow> joined_by_path (filtered_edges t edges_table) n n') \<and>
     (\<forall>(c, n) \<in> set out. c = Some (Min {m. (c, m) \<in> set out}))"
proof -
  define N where "N = cc_neighbours nodes_table edges_table t"
  let ?F = "filtered_edges t edges_table"
  have wf: "neighbours_wf N" unfolding N_def by (rule neighbours_wf_cc_neighbours)
  have sym: "neighbours_symmetric N"
    unfolding N_def by (rule neighbours_symmetric_cc_neighbours[OF assms])
  have V: "fst ` set N = set nodes_table" unfolding N_def by (rule fst_set_cc_neighbours)
  have comp: "component N n = {m. joined_by_path ?F n m}" if "n \<in> set nodes_table" for n
    unfolding N_def by (rule component_cc_neighbours[OF assms that])
  from cc_loop_result[OF wf sym] obtain st where
    res: "while_option (\<lambda>st. root_rows_count st > 0) (cc_iteration N) (cc_initial_state N)
            = Some st"
    and cdist: "distinct (map fst (concat (converged_repr_tables st)))"
    and cnodes: "fst ` set (concat (converged_repr_tables st)) = set nodes_table"
    and crows: "\<forall>row \<in> set (concat (converged_repr_tables st)).
             fst (snd row) = Some (Min (component N (fst row)))"
    unfolding V by blast
  define out where "out = clustering_output (converged_repr_tables st)"
  have solved: "solve_connected_components nodes_table edges_table t = Some out"
    unfolding solve_connected_components_def Let_def N_def[symmetric] res out_def by simp
  have dist: "distinct (map snd out)"
    unfolding out_def clustering_output_props(2) by (rule cdist)
  have rows: "set out = (\<lambda>n. (Some (Min (component N n)), n)) ` set nodes_table"
  proof (intro set_eqI iffI)
    fix x assume "x \<in> set out"
    then obtain row where row: "row \<in> set (concat (converged_repr_tables st))"
      "x = (fst (snd row), fst row)" unfolding out_def clustering_output_props(1) by blast
    from row(1) cnodes have "fst row \<in> set nodes_table" by blast
    moreover from crows row(1) have "fst (snd row) = Some (Min (component N (fst row)))"
      by blast
    ultimately show "x \<in> (\<lambda>n. (Some (Min (component N n)), n)) ` set nodes_table"
      unfolding row(2) by blast
  next
    fix x assume "x \<in> (\<lambda>n. (Some (Min (component N n)), n)) ` set nodes_table"
    then obtain n where n: "n \<in> set nodes_table" "x = (Some (Min (component N n)), n)" by blast
    from n(1) cnodes obtain row where row: "row \<in> set (concat (converged_repr_tables st))"
      "fst row = n" by (metis imageE)
    from crows row(1) have "fst (snd row) = Some (Min (component N (fst row)))" by blast
    with row(2) have "(fst (snd row), fst row) = x" unfolding n(2) by simp
    with row(1) show "x \<in> set out" unfolding out_def clustering_output_props(1) by blast
  qed
  have nodes: "snd ` set out = set nodes_table" unfolding rows by (simp add: image_image)
  have in_table: "component N n \<subseteq> set nodes_table" if "n \<in> set nodes_table" for n
  proof
    fix m assume "m \<in> component N n"
    then show "m \<in> set nodes_table"
    proof (rule component_closed[where P = "\<lambda>m. m \<in> set nodes_table", rotated 2])
      fix x y assume "x \<in> set nodes_table" "y \<in> nbrs N x"
      from symmetric_nbrs_in_table(1)[OF sym this(2)] show "y \<in> set nodes_table"
        unfolding V .
    qed (rule that)
  qed
  have same_min: "Min (component N n) = Min (component N n') \<longleftrightarrow> n' \<in> component N n" for n n'
  proof
    assume eq: "Min (component N n) = Min (component N n')"
    have "Min (component N n') \<in> component N n" unfolding eq[symmetric] by (rule Min_component_in)
    moreover have "n' \<in> component N (Min (component N n'))"
      by (rule component_sym[OF sym Min_component_in])
    ultimately show "n' \<in> component N n" by (rule component_trans)
  next
    assume "n' \<in> component N n"
    from component_eq[OF sym this] show "Min (component N n) = Min (component N n')" by simp
  qed
  have same: "\<forall>(c, n) \<in> set out. \<forall>(c', n') \<in> set out. c = c' \<longleftrightarrow> joined_by_path ?F n n'"
  proof (intro ballI, clarify)
    fix c n c' n' assume "(c, n) \<in> set out" "(c', n') \<in> set out"
    then have n: "n \<in> set nodes_table" "c = Some (Min (component N n))"
      and n': "c' = Some (Min (component N n'))" unfolding rows by auto
    have "c = c' \<longleftrightarrow> n' \<in> component N n"
      unfolding n(2) n' option.inject same_min ..
    also have "\<dots> \<longleftrightarrow> joined_by_path ?F n n'" unfolding comp[OF n(1)] by simp
    finally show "c = c' \<longleftrightarrow> joined_by_path ?F n n'" .
  qed
  have least: "\<forall>(c, n) \<in> set out. c = Some (Min {m. (c, m) \<in> set out})"
  proof (intro ballI, clarify)
    fix c n assume "(c, n) \<in> set out"
    then have n: "n \<in> set nodes_table" "c = Some (Min (component N n))" unfolding rows by auto
    have "{m. (c, m) \<in> set out} = component N n"
    proof (intro set_eqI iffI)
      fix m assume "m \<in> {m. (c, m) \<in> set out}"
      then have "Min (component N n) = Min (component N m)" unfolding rows n(2) by auto
      then show "m \<in> component N n" unfolding same_min .
    next
      fix m assume m: "m \<in> component N n"
      with in_table[OF n(1)] have "m \<in> set nodes_table" by blast
      moreover from m have "Min (component N n) = Min (component N m)" unfolding same_min .
      ultimately show "m \<in> {m. (c, m) \<in> set out}" unfolding rows n(2) by auto
    qed
    then show "c = Some (Min {m. (c, m) \<in> set out})" using n(2) by simp
  qed
  show ?thesis using solved dist nodes same least by blast
qed

theorem solve_connected_components_clusters_witness:
  "endpoints_in_nodes [1, 2, 3, 4, 5]
     (filtered_edges (Some 0.95) [(1, 2, 0.99), (3, 4, 0.99), (2, 3, 0.5)]) \<and>
   solve_connected_components [1, 2, 3, 4, 5] [(1, 2, 0.99), (3, 4, 0.99), (2, 3, 0.5)]
     (Some 0.95) =
   Some [(Some 1, 1), (Some 1, 2), (Some 3, 3), (Some 3, 4), (Some 5, 5)]"
proof -
  have h: "endpoints_in_nodes [1, 2, 3, 4, 5]
     (filtered_edges (Some 0.95) [(1, 2, 0.99), (3, 4, 0.99), (2, 3, 0.5)])"
    by (simp add: endpoints_in_nodes_def filtered_edges_def)
  have e: "solve_connected_components [1, 2, 3, 4, 5] [(1, 2, 0.99), (3, 4, 0.99), (2, 3, 0.5)]
     (Some 0.95) =
   Some [(Some 1, 1), (Some 1, 2), (Some 3, 3), (Some 3, 4), (Some 5, 5)]"
    by code_simp
  from solve_connected_components_clusters [OF h] e h show ?thesis by blast
qed

section \<open>Proofs: what \<^verbatim>\<open>estimate_u_values\<close> changes\<close>

lemma length_update_settings [simp]: "length (update_settings a f h) = length h"
  by (simp add: update_settings_def split: option.splits)

lemma length_update_level [simp]: "length (update_level a f h) = length h"
  by (simp add: update_level_def split: option.splits)

lemma nth_update_settings_other: "b \<noteq> a \<Longrightarrow> update_settings a f h ! b = h ! b"
  by (simp add: update_settings_def split: option.splits)

lemma nth_update_level_other: "b \<noteq> a \<Longrightarrow> update_level a f h ! b = h ! b"
  by (simp add: update_level_def split: option.splits)

lemma get_comparison_update_level [simp]:
  "get_comparison (update_level a f h) c = get_comparison h c"
  by (cases "c = a")
     (auto simp: update_level_def get_comparison_def get_level_def split: option.splits py_object.splits)

lemma closed_above_update_level:
  assumes "closed_above n h"
  shows "closed_above n (update_level a f h)"
  unfolding closed_above_def
proof (intro allI impI)
  fix b assume b: "n \<le> b \<and> b < length (update_level a f h)"
  show "case update_level a f h ! b of
           Settings st \<Rightarrow> \<forall>c \<in> set (comparisons st). n \<le> c
         | Comparison cmp \<Rightarrow> \<forall>l \<in> set (comparison_levels cmp). n \<le> l
         | Level lvl \<Rightarrow> True"
  proof (cases "b = a")
    case True
    then show ?thesis using b assms unfolding closed_above_def
      by (auto simp: update_level_def get_level_def split: option.splits py_object.splits)
  next
    case False
    with b assms show ?thesis unfolding closed_above_def
      by (simp add: nth_update_level_other)
  qed
qed

lemma closed_above_update_settings:
  assumes "closed_above n h" and "\<And>st. comparisons (f st) = comparisons st"
  shows "closed_above n (update_settings a f h)"
  unfolding closed_above_def
proof (intro allI impI)
  fix b assume b: "n \<le> b \<and> b < length (update_settings a f h)"
  show "case update_settings a f h ! b of
           Settings st \<Rightarrow> \<forall>c \<in> set (comparisons st). n \<le> c
         | Comparison cmp \<Rightarrow> \<forall>l \<in> set (comparison_levels cmp). n \<le> l
         | Level lvl \<Rightarrow> True"
  proof (cases "b = a")
    case True
    have "case h ! a of Settings st \<Rightarrow> \<forall>c \<in> set (comparisons st). n \<le> c
         | Comparison cmp \<Rightarrow> \<forall>l \<in> set (comparison_levels cmp). n \<le> l
         | Level lvl \<Rightarrow> True"
      using assms(1) b True unfolding closed_above_def by simp
    then show ?thesis using b True
      by (auto simp: update_settings_def get_settings_def assms(2) split: option.splits py_object.splits)
  next
    case False
    with b assms(1) show ?thesis unfolding closed_above_def
      by (simp add: nth_update_settings_other)
  qed
qed

lemma take_update_settings: "n \<le> a \<Longrightarrow> take n (update_settings a f h) = take n h"
  by (simp add: update_settings_def split: option.splits)

lemma take_update_level: "n \<le> a \<Longrightarrow> take n (update_level a f h) = take n h"
  by (simp add: update_level_def split: option.splits)

subsection \<open>The deep copy lies above the original objects\<close>

lemma closed_above_append:
  assumes "closed_above n h"
    and "case obj of Settings st \<Rightarrow> \<forall>c \<in> set (comparisons st). n \<le> c
         | Comparison cmp \<Rightarrow> \<forall>l \<in> set (comparison_levels cmp). n \<le> l
         | Level lvl \<Rightarrow> True"
  shows "closed_above n (h @ [obj])"
  unfolding closed_above_def
proof (intro allI impI)
  fix a assume a: "n \<le> a \<and> a < length (h @ [obj])"
  show "case (h @ [obj]) ! a of
           Settings st \<Rightarrow> \<forall>c \<in> set (comparisons st). n \<le> c
         | Comparison cmp \<Rightarrow> \<forall>l \<in> set (comparison_levels cmp). n \<le> l
         | Level lvl \<Rightarrow> True"
  proof (cases "a < length h")
    case True
    with a assms(1) show ?thesis unfolding closed_above_def by (simp add: nth_append)
  next
    case False
    with a have "a = length h" by simp
    with assms(2) show ?thesis by simp
  qed
qed

lemma deepcopy_levels_props:
  assumes "deepcopy_levels h ls = (h', ls')" and "n \<le> length h" and "closed_above n h"
  shows "(\<exists>ext. h' = h @ ext) \<and> closed_above n h' \<and> (\<forall>l \<in> set ls'. n \<le> l)"
  using assms
proof (induction ls arbitrary: h h' ls')
  case Nil
  then show ?case by simp
next
  case (Cons l ls)
  show ?case
  proof (cases "get_level h l")
    case None
    with Cons.prems(1) have "deepcopy_levels h ls = (h', ls')" by simp
    from Cons.IH[OF this Cons.prems(2,3)] show ?thesis .
  next
    case (Some lvl)
    with Cons.prems(1) obtain rest where
      r: "deepcopy_levels (h @ [Level lvl]) ls = (h', rest)" "ls' = length h # rest"
      by (auto split: prod.splits)
    have "closed_above n (h @ [Level lvl])"
      by (rule closed_above_append[OF Cons.prems(3)]) simp
    moreover have "n \<le> length (h @ [Level lvl])" using Cons.prems(2) by simp
    ultimately have "(\<exists>ext. h' = (h @ [Level lvl]) @ ext) \<and> closed_above n h' \<and>
        (\<forall>l \<in> set rest. n \<le> l)"
      using Cons.IH[OF r(1)] by blast
    then show ?thesis using r(2) Cons.prems(2) by auto
  qed
qed

lemma deepcopy_comparisons_props:
  assumes "deepcopy_comparisons h cs = (h', cs')" and "n \<le> length h" and "closed_above n h"
  shows "(\<exists>ext. h' = h @ ext) \<and> closed_above n h' \<and> (\<forall>c \<in> set cs'. n \<le> c)"
  using assms
proof (induction cs arbitrary: h h' cs')
  case Nil
  then show ?case by simp
next
  case (Cons c cs)
  show ?case
  proof (cases "get_comparison h c")
    case None
    with Cons.prems(1) have "deepcopy_comparisons h cs = (h', cs')" by simp
    from Cons.IH[OF this Cons.prems(2,3)] show ?thesis .
  next
    case (Some cmp)
    obtain h1 lsc where l: "deepcopy_levels h (comparison_levels cmp) = (h1, lsc)"
      by (cases "deepcopy_levels h (comparison_levels cmp)")
    with Some Cons.prems(1) obtain rest where
      r: "deepcopy_comparisons (h1 @ [Comparison (cmp\<lparr>comparison_levels := lsc\<rparr>)]) cs = (h', rest)"
         "cs' = length h1 # rest"
      by (auto split: prod.splits)
    from deepcopy_levels_props[OF l Cons.prems(2,3)] obtain ext1 where
      p1: "h1 = h @ ext1" "closed_above n h1" "\<forall>l \<in> set lsc. n \<le> l" by blast
    have c1: "closed_above n (h1 @ [Comparison (cmp\<lparr>comparison_levels := lsc\<rparr>)])"
      by (rule closed_above_append[OF p1(2)]) (simp add: p1(3))
    have n1: "n \<le> length (h1 @ [Comparison (cmp\<lparr>comparison_levels := lsc\<rparr>)])"
      using Cons.prems(2) p1(1) by simp
    from Cons.IH[OF r(1) n1 c1] obtain ext2 where
      p2: "h' = (h1 @ [Comparison (cmp\<lparr>comparison_levels := lsc\<rparr>)]) @ ext2"
      "closed_above n h'" "\<forall>c \<in> set rest. n \<le> c" by blast
    have "n \<le> length h1" using Cons.prems(2) p1(1) by simp
    then show ?thesis using p1(1) p2 r(2) by auto
  qed
qed

lemma closed_above_length: "closed_above (length h) h"
  unfolding closed_above_def by (intro allI impI) linarith

lemma deepcopy_settings_props:
  assumes "deepcopy_settings h s = (h', s')" and "get_settings h s \<noteq> None"
  shows "(\<exists>ext. h' = h @ ext) \<and> closed_above (length h) h' \<and> length h \<le> s'"
proof -
  from assms(2) obtain st where st: "get_settings h s = Some st" by blast
  obtain h1 cs' where c: "deepcopy_comparisons h (comparisons st) = (h1, cs')"
    by (cases "deepcopy_comparisons h (comparisons st)")
  from assms(1) st c have r: "h' = h1 @ [Settings (st\<lparr>comparisons := cs'\<rparr>)]" "s' = length h1"
    by (simp_all add: deepcopy_settings_def)
  from deepcopy_comparisons_props[OF c le_refl closed_above_length] obtain ext where
    p: "h1 = h @ ext" "closed_above (length h) h1" "\<forall>c \<in> set cs'. length h \<le> c" by blast
  have "closed_above (length h) h'" unfolding r(1)
    by (rule closed_above_append[OF p(2)]) (simp add: p(3))
  then show ?thesis using r p(1) by simp
qed

subsection \<open>The writes before the last loop stay in the copy\<close>

lemma closed_above_level_refs:
  assumes "closed_above n h" and "n \<le> c"
  shows "\<forall>l \<in> set (level_refs h c). n \<le> l"
proof (cases "get_comparison h c")
  case None
  then show ?thesis by (simp add: level_refs_def)
next
  case (Some cmp)
  then have "c < length h" "h ! c = Comparison cmp"
    by (auto simp: get_comparison_def split: if_splits py_object.splits)
  with assms have "\<forall>l \<in> set (comparison_levels cmp). n \<le> l"
    unfolding closed_above_def by fastforce
  with Some show ?thesis by (simp add: level_refs_def)
qed

lemma closed_above_comparison_refs:
  assumes "closed_above n h" and "n \<le> s"
  shows "\<forall>c \<in> set (comparison_refs h s). n \<le> c"
proof (cases "get_settings h s")
  case None
  then show ?thesis by (simp add: comparison_refs_def)
next
  case (Some st)
  then have "s < length h" "h ! s = Settings st"
    by (auto simp: get_settings_def split: if_splits py_object.splits)
  with assms have "\<forall>c \<in> set (comparisons st). n \<le> c"
    unfolding closed_above_def by fastforce
  with Some show ?thesis by (simp add: comparison_refs_def)
qed

lemma fold_update_levels_above:
  assumes "closed_above n h" and "\<forall>l \<in> set ls. n \<le> l"
  shows "closed_above n (fold (\<lambda>cl. update_level cl f) ls h) \<and>
         take n (fold (\<lambda>cl. update_level cl f) ls h) = take n h"
  using assms
proof (induction ls arbitrary: h)
  case Nil
  then show ?case by simp
next
  case (Cons l ls)
  have "closed_above n (update_level l f h)" by (rule closed_above_update_level[OF Cons.prems(1)])
  moreover have "take n (update_level l f h) = take n h"
    using Cons.prems(2) by (simp add: take_update_level)
  ultimately show ?case using Cons.IH[of "update_level l f h"] Cons.prems(2) by simp
qed

lemma fold_update_comparisons_above:
  assumes "closed_above n h" and "\<forall>c \<in> set cs. n \<le> c"
  shows "closed_above n (fold (\<lambda>cc hh. fold (\<lambda>cl. update_level cl f) (level_refs hh cc) hh) cs h) \<and>
         take n (fold (\<lambda>cc hh. fold (\<lambda>cl. update_level cl f) (level_refs hh cc) hh) cs h) = take n h"
  using assms
proof (induction cs arbitrary: h)
  case Nil
  then show ?case by simp
next
  case (Cons c cs)
  let ?h = "fold (\<lambda>cl. update_level cl f) (level_refs h c) h"
  from Cons.prems have "\<forall>l \<in> set (level_refs h c). n \<le> l"
    using closed_above_level_refs[of n h c] by simp
  from fold_update_levels_above[OF Cons.prems(1) this]
  have "closed_above n ?h" "take n ?h = take n h" by blast+
  then show ?case using Cons.IH[of ?h] Cons.prems(2) by simp
qed

lemma same_below:
  assumes "take (length h) h' = h" and "a < length h"
  shows "a < length h'" and "h' ! a = h ! a"
proof -
  have "length (take (length h) h') = length h" unfolding assms(1) ..
  then have "length h \<le> length h'" by simp
  with assms(2) show "a < length h'" by simp
  from assms show "h' ! a = h ! a" by (metis nth_take)
qed

lemma u_targets_same:
  assumes same: "take (length h) h' = h" and ok: "settings_in_store h s"
  shows "u_targets h' s = u_targets h s"
proof -
  from ok obtain st where st: "get_settings h s = Some st"
    and cs: "\<forall>c \<in> set (comparisons st). case get_comparison h c of None \<Rightarrow> False
               | Some cmp \<Rightarrow> (\<forall>l \<in> set (comparison_levels cmp). get_level h l \<noteq> None)"
    unfolding settings_in_store_def by (auto split: option.splits)
  have gs: "get_settings h' s = Some st"
    using st same_below[OF same, of s]
    by (auto simp: get_settings_def split: if_splits)
  have gc: "get_comparison h' c = get_comparison h c" if "c \<in> set (comparisons st)" for c
  proof -
    from cs that obtain cmp where "get_comparison h c = Some cmp" by (auto split: option.splits)
    then show ?thesis using same_below[OF same, of c]
      by (auto simp: get_comparison_def split: if_splits)
  qed
  have gl: "get_level h' l = get_level h l"
    if "c \<in> set (comparisons st)" "l \<in> set (level_refs h c)" for c l
  proof -
    from cs that have "get_level h l \<noteq> None"
      by (auto simp: level_refs_def split: option.splits)
    then show ?thesis using same_below[OF same, of l]
      by (auto simp: get_level_def split: if_splits)
  qed
  have lr: "level_refs h' c = level_refs h c" if "c \<in> set (comparisons st)" for c
    by (simp add: level_refs_def gc[OF that])
  have ex: "comparison_levels_excluding_null h' c = comparison_levels_excluding_null h c"
    if "c \<in> set (comparisons st)" for c
    unfolding comparison_levels_excluding_null_def lr[OF that]
    by (rule filter_cong[OF refl]) (simp add: gl[OF that])
  show ?thesis
    unfolding u_targets_def comparison_refs_def gs st option.case
  proof (rule arg_cong[where f = concat], rule map_cong[OF refl])
    fix c assume c: "c \<in> set (comparisons st)"
    show "map (\<lambda>cl. (case get_comparison h' c of Some cmp \<Rightarrow> output_column_name cmp | None \<Rightarrow> [], cl))
            (comparison_levels_excluding_null h' c) =
          map (\<lambda>cl. (case get_comparison h c of Some cmp \<Rightarrow> output_column_name cmp | None \<Rightarrow> [], cl))
            (comparison_levels_excluding_null h c)"
      unfolding ex[OF c] gc[OF c] by (rule refl)
  qed
qed

subsection \<open>The last loop appends to the levels it visits\<close>

lemma fold_append_u_nth:
  assumes "a < length h"
  shows "length (fold (\<lambda>(output_column, cl).
           append_u_probability_to_comparison_level_trained_probabilities
             cl lookup output_column description) ts h) = length h \<and>
     fold (\<lambda>(output_column, cl).
           append_u_probability_to_comparison_level_trained_probabilities
             cl lookup output_column description) ts h ! a =
     (case h ! a of
        Level lvl \<Rightarrow>
          Level (lvl\<lparr>cl_trained_u_probabilities :=
                   cl_trained_u_probabilities lvl @
                   map (\<lambda>t. (lookup (fst t) (cl_comparison_vector_value lvl), description))
                     (filter (\<lambda>t. snd t = a) ts)\<rparr>)
      | Settings st \<Rightarrow> Settings st
      | Comparison cmp \<Rightarrow> Comparison cmp)"
  using assms
proof (induction ts arbitrary: h)
  case Nil
  then show ?case by (simp split: py_object.splits)
next
  case (Cons t ts)
  obtain name l where t: "t = (name, l)" by (cases t)
  let ?h = "append_u_probability_to_comparison_level_trained_probabilities l lookup name description h"
  have len: "length ?h = length h"
    by (simp add: append_u_probability_to_comparison_level_trained_probabilities_def)
  with Cons.prems have a: "a < length ?h" by simp
  have step: "?h ! a =
     (case h ! a of
        Level lvl \<Rightarrow>
          (if l = a
           then Level (lvl\<lparr>cl_trained_u_probabilities :=
                   cl_trained_u_probabilities lvl @
                   [(lookup name (cl_comparison_vector_value lvl), description)]\<rparr>)
           else Level lvl)
      | Settings st \<Rightarrow> Settings st
      | Comparison cmp \<Rightarrow> Comparison cmp)"
    using Cons.prems
    by (cases "l = a")
       (auto simp: append_u_probability_to_comparison_level_trained_probabilities_def
          update_level_def get_level_def split: option.splits py_object.splits)
  show ?case
    using Cons.IH[OF a] len unfolding t
    by (simp add: step split: py_object.splits)
qed

subsection \<open>The settings object of the copy\<close>

lemma get_settings_update_settings_same:
  "get_settings (update_settings a f h) a = map_option f (get_settings h a)"
  by (auto simp: update_settings_def get_settings_def split: option.splits py_object.splits)

lemma get_settings_update_level [simp]:
  "get_settings (update_level a f h) b = get_settings h b"
  by (cases "b = a")
     (auto simp: update_level_def get_settings_def get_level_def split: option.splits py_object.splits)

lemma get_settings_fold_update_level [simp]:
  "get_settings (fold (\<lambda>cl. update_level cl f) ls h) b = get_settings h b"
  by (induction ls arbitrary: h) simp_all

lemma get_settings_fold_update_comparisons [simp]:
  "get_settings (fold (\<lambda>cc hh. fold (\<lambda>cl. update_level cl f) (level_refs hh cc) hh) cs h) b =
   get_settings h b"
  by (induction cs arbitrary: h) simp_all

lemma deepcopy_settings_copy:
  assumes "deepcopy_settings h s = (h', s')" and "get_settings h s = Some st"
  shows "\<exists>cs'. get_settings h' s' = Some (st\<lparr>comparisons := cs'\<rparr>)"
proof -
  obtain h1 cs' where c: "deepcopy_comparisons h (comparisons st) = (h1, cs')"
    by (cases "deepcopy_comparisons h (comparisons st)")
  from assms c have r: "h' = h1 @ [Settings (st\<lparr>comparisons := cs'\<rparr>)]" "s' = length h1"
    by (simp_all add: deepcopy_settings_def)
  have "get_settings h' s' = Some (st\<lparr>comparisons := cs'\<rparr>)"
    unfolding r by (simp add: get_settings_def)
  then show ?thesis ..
qed

subsection \<open>The records the last loop appends to one level\<close>

lemma count_list_filter:
  "count_list (filter P xs) a = (if P a then count_list xs a else 0)"
  by (induction xs) auto

lemma records_of_one_comparison:
  "map g (filter (\<lambda>t. snd t = a) (map (\<lambda>cl. (name, cl)) xs)) =
   replicate (count_list xs a) (g (name, a))"
  by (induction xs) auto

lemma u_targets_records:
  assumes ok: "settings_in_store h s" and st: "h ! s = Settings st"
    and a: "a < length h" and lvl: "h ! a = Level lvl"
  shows "map (\<lambda>t. (lookup (fst t) v, description)) (filter (\<lambda>t. snd t = a) (u_targets h s)) =
         concat (map (\<lambda>c. case h ! c of
                             Comparison cmp \<Rightarrow>
                               if cl_is_null_level lvl then []
                               else replicate (count_list (comparison_levels cmp) a)
                                      (lookup (output_column_name cmp) v, description)
                           | _ \<Rightarrow> [])
                   (comparisons st))"
proof -
  from ok st have gs: "get_settings h s = Some st"
    unfolding settings_in_store_def get_settings_def
    by (auto split: option.splits if_splits)
  from ok gs have cs: "\<forall>c \<in> set (comparisons st). get_comparison h c \<noteq> None"
    unfolding settings_in_store_def by (auto split: option.splits)
  from a lvl have gl: "get_level h a = Some lvl" by (simp add: get_level_def)
  have one: "map (\<lambda>t. (lookup (fst t) v, description))
               (filter (\<lambda>t. snd t = a)
                  (map (\<lambda>cl. (case get_comparison h c of
                                 Some cmp \<Rightarrow> output_column_name cmp | None \<Rightarrow> [], cl))
                     (comparison_levels_excluding_null h c))) =
             (case h ! c of
                Comparison cmp \<Rightarrow>
                  if cl_is_null_level lvl then []
                  else replicate (count_list (comparison_levels cmp) a)
                         (lookup (output_column_name cmp) v, description)
              | _ \<Rightarrow> [])"
    if c: "c \<in> set (comparisons st)" for c
  proof -
    from cs c obtain cmp where gc: "get_comparison h c = Some cmp" by blast
    then have hc: "h ! c = Comparison cmp"
      by (auto simp: get_comparison_def split: if_splits py_object.splits)
    have "count_list (comparison_levels_excluding_null h c) a =
          (if cl_is_null_level lvl then 0 else count_list (comparison_levels cmp) a)"
      unfolding comparison_levels_excluding_null_def level_refs_def gc option.case
        count_list_filter gl
      by simp
    then show ?thesis
      unfolding records_of_one_comparison gc hc by simp
  qed
  have "map (\<lambda>t. (lookup (fst t) v, description)) (filter (\<lambda>t. snd t = a) (u_targets h s)) =
        concat (map (\<lambda>c. map (\<lambda>t. (lookup (fst t) v, description))
               (filter (\<lambda>t. snd t = a)
                  (map (\<lambda>cl. (case get_comparison h c of
                                 Some cmp \<Rightarrow> output_column_name cmp | None \<Rightarrow> [], cl))
                     (comparison_levels_excluding_null h c)))) (comparisons st))"
    unfolding u_targets_def comparison_refs_def gs option.case
    by (simp add: filter_concat map_concat comp_def)
  also have "\<dots> = concat (map (\<lambda>c. case h ! c of
                             Comparison cmp \<Rightarrow>
                               if cl_is_null_level lvl then []
                               else replicate (count_list (comparison_levels cmp) a)
                                      (lookup (output_column_name cmp) v, description)
                           | _ \<Rightarrow> [])
                   (comparisons st))"
    by (rule arg_cong[where f = concat], rule map_cong[OF refl]) (rule one)
  finally show ?thesis .
qed

subsection \<open>The levels of the copy lose their term-frequency adjustment column\<close>

lemma get_level_update_settings [simp]:
  "get_level (update_settings a f h) b = get_level h b"
  by (cases "b = a")
     (auto simp: update_settings_def get_settings_def get_level_def split: option.splits py_object.splits)

lemma get_comparison_update_settings [simp]:
  "get_comparison (update_settings a f h) b = get_comparison h b"
  by (cases "b = a")
     (auto simp: update_settings_def get_settings_def get_comparison_def
        split: option.splits py_object.splits)

lemma get_level_update_level:
  "get_level (update_level a f h) b =
     (if b = a then map_option f (get_level h a) else get_level h b)"
  by (auto simp: update_level_def get_level_def split: option.splits py_object.splits)

lemma level_refs_update_level [simp]: "level_refs (update_level a f h) c = level_refs h c"
  by (simp add: level_refs_def)

lemma level_refs_update_settings [simp]: "level_refs (update_settings a f h) c = level_refs h c"
  by (simp add: level_refs_def)

lemma level_refs_fold_update_level [simp]:
  "level_refs (fold (\<lambda>cl. update_level cl f) ls h) c = level_refs h c"
  by (induction ls arbitrary: h) simp_all

lemma level_refs_fold_update_comparisons [simp]:
  "level_refs (fold (\<lambda>cc hh. fold (\<lambda>cl. update_level cl f) (level_refs hh cc) hh) cs h) c =
   level_refs h c"
  by (induction cs arbitrary: h) simp_all

lemma tf_cleared_update_level:
  assumes "\<forall>lvl. get_level h l = Some lvl \<longrightarrow> cl_tf_adjustment_column lvl = None"
  shows "\<forall>lvl. get_level (update_level a (\<lambda>l. l\<lparr>cl_tf_adjustment_column := None\<rparr>) h) l = Some lvl
           \<longrightarrow> cl_tf_adjustment_column lvl = None"
  using assms by (auto simp: get_level_update_level)

lemma tf_cleared_fold_keeps:
  assumes "\<forall>lvl. get_level h l = Some lvl \<longrightarrow> cl_tf_adjustment_column lvl = None"
  shows "\<forall>lvl. get_level (fold (\<lambda>cl. update_level cl (\<lambda>l. l\<lparr>cl_tf_adjustment_column := None\<rparr>))
                              ls h) l = Some lvl
           \<longrightarrow> cl_tf_adjustment_column lvl = None"
  using assms
proof (induction ls arbitrary: h)
  case Nil
  then show ?case by simp
next
  case (Cons x ls)
  from Cons.IH[OF tf_cleared_update_level[OF Cons.prems, of x]] show ?case by simp
qed

lemma tf_cleared_fold_sets:
  assumes "l \<in> set ls"
  shows "\<forall>lvl. get_level (fold (\<lambda>cl. update_level cl (\<lambda>l. l\<lparr>cl_tf_adjustment_column := None\<rparr>))
                              ls h) l = Some lvl
           \<longrightarrow> cl_tf_adjustment_column lvl = None"
  using assms
proof (induction ls arbitrary: h)
  case Nil
  then show ?case by simp
next
  case (Cons x ls)
  show ?case
  proof (cases "l = x")
    case True
    have "\<forall>lvl. get_level (update_level x (\<lambda>l. l\<lparr>cl_tf_adjustment_column := None\<rparr>) h) l = Some lvl
           \<longrightarrow> cl_tf_adjustment_column lvl = None"
      unfolding True by (auto simp: get_level_update_level)
    from tf_cleared_fold_keeps[OF this] show ?thesis by simp
  next
    case False
    with Cons.prems have "l \<in> set ls" by simp
    from Cons.IH[OF this] show ?thesis by simp
  qed
qed

lemma tf_cleared_fold_comparisons_keeps:
  assumes "\<forall>lvl. get_level h l = Some lvl \<longrightarrow> cl_tf_adjustment_column lvl = None"
  shows "\<forall>lvl. get_level
                 (fold (\<lambda>cc hh. fold (\<lambda>cl. update_level cl (\<lambda>l. l\<lparr>cl_tf_adjustment_column := None\<rparr>))
                                   (level_refs hh cc) hh) cs h) l = Some lvl
           \<longrightarrow> cl_tf_adjustment_column lvl = None"
  using assms
proof (induction cs arbitrary: h)
  case Nil
  then show ?case by simp
next
  case (Cons c cs)
  from Cons.IH[OF tf_cleared_fold_keeps[OF Cons.prems, of "level_refs h c"]] show ?case by simp
qed

lemma tf_cleared_fold_comparisons_sets:
  assumes "c \<in> set cs" and "l \<in> set (level_refs h c)"
  shows "\<forall>lvl. get_level
                 (fold (\<lambda>cc hh. fold (\<lambda>cl. update_level cl (\<lambda>l. l\<lparr>cl_tf_adjustment_column := None\<rparr>))
                                   (level_refs hh cc) hh) cs h) l = Some lvl
           \<longrightarrow> cl_tf_adjustment_column lvl = None"
  using assms
proof (induction cs arbitrary: h)
  case Nil
  then show ?case by simp
next
  case (Cons x cs)
  let ?h = "fold (\<lambda>cl. update_level cl (\<lambda>l. l\<lparr>cl_tf_adjustment_column := None\<rparr>))
              (level_refs h x) h"
  show ?case
  proof (cases "c = x")
    case True
    with Cons.prems(2) have "l \<in> set (level_refs h x)" by simp
    from tf_cleared_fold_comparisons_keeps[OF tf_cleared_fold_sets[OF this]]
    show ?thesis by simp
  next
    case False
    with Cons.prems(1) have c: "c \<in> set cs" by simp
    have "l \<in> set (level_refs ?h c)" using Cons.prems(2) by simp
    from Cons.IH[OF c this] show ?thesis by simp
  qed
qed

subsection \<open>The side effect on the objects of the caller\<close>

text \<open>
  Claim C8. Let the linker's settings object \<open>st\<close>, its comparisons and their levels be in
  place in the store \<open>h\<close>. Then \<^verbatim>\<open>estimate_u_values\<close> hands the executor a store \<open>hx\<close> that
  agrees with \<open>h\<close> on every object of the caller, and a settings object \<open>stx\<close> at a new
  address: it is this copy that has the two retain flags switched off and the blocking rules
  replaced, and the levels of its comparisons that have lost their term-frequency
  adjustment column. What the run leaves in the store is then settled by its two fallible
  stages.

  \<^item> If the sampling stage raises, or the executor does, that exception is the result and
    every object of the caller is as it was.

  \<^item> Otherwise no exception is raised and the executor's table \<open>lookup\<close> is written back:
    settings and comparison objects of the caller are as they were, and a level object of
    the caller changes in one field only, its list of trained u probabilities. A null level
    gets nothing appended; a non-null level gets, for every comparison of \<open>st\<close> in order and
    every time it occurs among that comparison's levels, the record made of
    \<open>lookup\<close> at the comparison's output column name and the level's comparison vector
    value, tagged \<open>estimate u by random sampling\<close>. So the term-frequency adjustment
    column, the m probability and the null flag of every level of the caller stay.
\<close>

theorem estimate_u_values_only_appends_trained_u:
  assumes ok: "settings_in_store h (settings_obj lk)"
    and st: "h ! settings_obj lk = Settings st"
  shows "case estimate_u_values m_u_records cpu_count rows h lk max_pairs seed of
     (h', err) \<Rightarrow>
       (\<exists>hx sx stx.
          take (length h) hx = h \<and> length h \<le> sx \<and> get_settings hx sx = Some stx \<and>
          settings_link_type stx = settings_link_type st \<and>
          retain_matching_columns stx = False \<and>
          retain_intermediate_calculation_columns stx = False \<and>
          blocking_rules_to_generate_predictions stx =
            (if sql_dialect lk = ''duckdb'' \<and> max_pairs > 10000
             then [\<lparr>blocking_rule = ''1=1'', salting_partitions = cpu_count\<rparr>] else []) \<and>
          (\<forall>c \<in> set (comparisons stx). \<forall>l \<in> set (level_refs hx c). \<forall>lvl.
             get_level hx l = Some lvl \<longrightarrow> cl_tf_adjustment_column lvl = None) \<and>
          (case estimate_u_values_sample (settings_link_type st) rows max_pairs seed of
             Inl e \<Rightarrow> err = Some e \<and> take (length h) h' = h
           | Inr sample \<Rightarrow>
               (case m_u_records hx sx of
                  Inl e \<Rightarrow> err = Some e \<and> take (length h) h' = h
                | Inr lookup \<Rightarrow>
                    err = None \<and> length h \<le> length h' \<and>
                    (\<forall>a < length h.
                       h' ! a =
                         (case h ! a of
                            Level lvl \<Rightarrow>
                              Level (lvl\<lparr>cl_trained_u_probabilities :=
                                cl_trained_u_probabilities lvl @
                                concat (map (\<lambda>c. case h ! c of
                                     Comparison cmp \<Rightarrow>
                                       if cl_is_null_level lvl then []
                                       else replicate (count_list (comparison_levels cmp) a)
                                              (lookup (output_column_name cmp)
                                                 (cl_comparison_vector_value lvl),
                                               ''estimate u by random sampling'')
                                   | _ \<Rightarrow> [])
                                  (comparisons st))\<rparr>)
                          | obj \<Rightarrow> obj)))))"
proof -
  let ?n = "length h"
  let ?s = "settings_obj lk"
  let ?rules = "if sql_dialect lk = ''duckdb'' \<and> max_pairs > 10000
                then [\<lparr>blocking_rule = ''1=1'', salting_partitions = cpu_count\<rparr>] else []"
  from ok st have gs: "get_settings h ?s = Some st"
    unfolding settings_in_store_def get_settings_def
    by (auto split: option.splits if_splits)
  then have gs': "get_settings h ?s \<noteq> None" by simp
  obtain h1 s' where dc: "deepcopy_settings h ?s = (h1, s')" by (cases "deepcopy_settings h ?s")
  from deepcopy_settings_props[OF dc gs'] obtain ext where
    h1: "h1 = h @ ext" and c1: "closed_above ?n h1" and s': "?n \<le> s'" by blast
  from deepcopy_settings_copy[OF dc gs] obtain cs' where
    g1: "get_settings h1 s' = Some (st\<lparr>comparisons := cs'\<rparr>)" ..
  define h2 where "h2 = update_settings s' (\<lambda>s. s\<lparr>retain_matching_columns := False\<rparr>) h1"
  define h3 where "h3 = update_settings s'
                 (\<lambda>s. s\<lparr>retain_intermediate_calculation_columns := False\<rparr>) h2"
  define h4 where "h4 = fold (\<lambda>cc hh. fold (\<lambda>cl. update_level cl (\<lambda>l. l\<lparr>cl_tf_adjustment_column := None\<rparr>))
                                 (level_refs hh cc) hh)
                 (comparison_refs h3 s') h3"
  define h5 where "h5 = update_settings s'
                         (\<lambda>s. s\<lparr>blocking_rules_to_generate_predictions := ?rules\<rparr>) h4"
  define sample where "sample = estimate_u_values_sample
                (case get_settings h4 s' of Some s \<Rightarrow> settings_link_type s | None \<Rightarrow> [])
                rows max_pairs seed"
  have so: "settings_obj (lk\<lparr>settings_obj := s'\<rparr>) = s'" by simp
  have run: "estimate_u_values m_u_records cpu_count rows h lk max_pairs seed =
        (case sample of
           Inl e \<Rightarrow> (h4, Some e)
         | Inr x \<Rightarrow>
             (case m_u_records h5 s' of
                Inl e \<Rightarrow> (h5, Some e)
              | Inr lookup \<Rightarrow>
                  (fold (\<lambda>(output_column, cl).
                           append_u_probability_to_comparison_level_trained_probabilities
                             cl lookup output_column ''estimate u by random sampling'')
                     (u_targets h5 ?s) h5,
                   None)))"
    unfolding estimate_u_values_def deepcopy_linker_def dc Let_def prod.case so
      sample_def h5_def h4_def h3_def h2_def
    by (rule refl)
  \<comment> \<open>the objects of the caller stay while the copy is written to\<close>
  have t1: "take ?n h1 = h" unfolding h1 by simp
  have c2: "closed_above ?n h2" unfolding h2_def
    by (rule closed_above_update_settings[OF c1]) simp
  have t2: "take ?n h2 = h" unfolding h2_def take_update_settings[OF s'] by (rule t1)
  have c3: "closed_above ?n h3" unfolding h3_def
    by (rule closed_above_update_settings[OF c2]) simp
  have t3: "take ?n h3 = h" unfolding h3_def take_update_settings[OF s'] by (rule t2)
  from fold_update_comparisons_above[OF c3 closed_above_comparison_refs[OF c3 s']]
  have "take ?n h4 = take ?n h3" unfolding h4_def by blast
  with t3 have t4: "take ?n h4 = h" by simp
  have t5: "take ?n h5 = h" unfolding h5_def take_update_settings[OF s'] by (rule t4)
  \<comment> \<open>the settings object of the copy\<close>
  have g2: "get_settings h2 s' =
      Some (st\<lparr>comparisons := cs', retain_matching_columns := False\<rparr>)"
    unfolding h2_def get_settings_update_settings_same g1 by simp
  have g3: "get_settings h3 s' =
      Some (st\<lparr>comparisons := cs', retain_matching_columns := False,
               retain_intermediate_calculation_columns := False\<rparr>)"
    unfolding h3_def get_settings_update_settings_same g2 by simp
  have g4: "get_settings h4 s' =
      Some (st\<lparr>comparisons := cs', retain_matching_columns := False,
               retain_intermediate_calculation_columns := False\<rparr>)"
    unfolding h4_def get_settings_fold_update_comparisons by (rule g3)
  define stx where "stx = st\<lparr>comparisons := cs', retain_matching_columns := False,
               retain_intermediate_calculation_columns := False,
               blocking_rules_to_generate_predictions := ?rules\<rparr>"
  have g5: "get_settings h5 s' = Some stx"
    unfolding h5_def get_settings_update_settings_same g4 stx_def by simp
  have stx: "settings_link_type stx = settings_link_type st"
    "retain_matching_columns stx = False"
    "retain_intermediate_calculation_columns stx = False"
    "blocking_rules_to_generate_predictions stx = ?rules"
    unfolding stx_def by simp_all
  have tf: "\<forall>c \<in> set (comparisons stx). \<forall>l \<in> set (level_refs h5 c). \<forall>lvl.
             get_level h5 l = Some lvl \<longrightarrow> cl_tf_adjustment_column lvl = None"
  proof (intro ballI)
    fix c l assume c: "c \<in> set (comparisons stx)" and l: "l \<in> set (level_refs h5 c)"
    have refs: "comparison_refs h3 s' = cs'" unfolding comparison_refs_def g3 by simp
    from c have c': "c \<in> set (comparison_refs h3 s')" unfolding refs stx_def by simp
    from l have l': "l \<in> set (level_refs h3 c)" unfolding h5_def h4_def by simp
    from tf_cleared_fold_comparisons_sets[OF c' l']
    show "\<forall>lvl. get_level h5 l = Some lvl \<longrightarrow> cl_tf_adjustment_column lvl = None"
      unfolding h5_def h4_def by simp
  qed
  have sample: "sample = estimate_u_values_sample (settings_link_type st) rows max_pairs seed"
    unfolding sample_def g4 by simp
  \<comment> \<open>the three ways the run can end\<close>
  have body: "case estimate_u_values m_u_records cpu_count rows h lk max_pairs seed of
     (h', err) \<Rightarrow>
          (case sample of
             Inl e \<Rightarrow> err = Some e \<and> take (length h) h' = h
           | Inr sample \<Rightarrow>
               (case m_u_records h5 s' of
                  Inl e \<Rightarrow> err = Some e \<and> take (length h) h' = h
                | Inr lookup \<Rightarrow>
                    err = None \<and> length h \<le> length h' \<and>
                    (\<forall>a < length h.
                       h' ! a =
                         (case h ! a of
                            Level lvl \<Rightarrow>
                              Level (lvl\<lparr>cl_trained_u_probabilities :=
                                cl_trained_u_probabilities lvl @
                                concat (map (\<lambda>c. case h ! c of
                                     Comparison cmp \<Rightarrow>
                                       if cl_is_null_level lvl then []
                                       else replicate (count_list (comparison_levels cmp) a)
                                              (lookup (output_column_name cmp)
                                                 (cl_comparison_vector_value lvl),
                                               ''estimate u by random sampling'')
                                   | _ \<Rightarrow> [])
                                  (comparisons st))\<rparr>)
                          | obj \<Rightarrow> obj))))"
  proof (cases sample)
    case (Inl e)
    show ?thesis unfolding run Inl using t4 by simp
  next
    case sampled: (Inr x)
    show ?thesis
    proof (cases "m_u_records h5 s'")
      case (Inl e)
      show ?thesis unfolding run sampled Inl using t5 by simp
    next
      case (Inr lookup)
      define h6 where "h6 = fold (\<lambda>(output_column, cl).
                               append_u_probability_to_comparison_level_trained_probabilities
                                 cl lookup output_column
                                 ''estimate u by random sampling'')
                         (u_targets h5 ?s) h5"
      have ts: "u_targets h5 ?s = u_targets h ?s" by (rule u_targets_same[OF t5 ok])
      have "length (take ?n h5) = ?n" unfolding t5 ..
      then have l5: "?n \<le> length h5" by simp
      have l6: "length h6 = length h5"
      proof (cases "h5 = []")
        case True
        then show ?thesis unfolding h6_def ts using t5 gs
          by (simp add: get_settings_def)
      next
        case False
        then have "0 < length h5" by simp
        from fold_append_u_nth[OF this] show ?thesis unfolding h6_def by blast
      qed
      have "\<forall>a < ?n.
                       h6 ! a =
                         (case h ! a of
                            Level lvl \<Rightarrow>
                              Level (lvl\<lparr>cl_trained_u_probabilities :=
                                cl_trained_u_probabilities lvl @
                                concat (map (\<lambda>c. case h ! c of
                                     Comparison cmp \<Rightarrow>
                                       if cl_is_null_level lvl then []
                                       else replicate (count_list (comparison_levels cmp) a)
                                              (lookup (output_column_name cmp)
                                                 (cl_comparison_vector_value lvl),
                                               ''estimate u by random sampling'')
                                   | _ \<Rightarrow> [])
                                  (comparisons st))\<rparr>)
                          | obj \<Rightarrow> obj)"
      proof (intro allI impI)
        fix a assume a: "a < ?n"
        note a5 = same_below[OF t5 a]
        from fold_append_u_nth[OF a5(1), of lookup "''estimate u by random sampling''"
            "u_targets h ?s"]
        have nth: "h6 ! a =
          (case h ! a of
            Level lvl \<Rightarrow>
              Level (lvl\<lparr>cl_trained_u_probabilities :=
                     cl_trained_u_probabilities lvl @
                     map (\<lambda>t. (lookup (fst t) (cl_comparison_vector_value lvl),
                                ''estimate u by random sampling''))
                       (filter (\<lambda>t. snd t = a) (u_targets h ?s))\<rparr>)
          | Settings st \<Rightarrow> Settings st
          | Comparison cmp \<Rightarrow> Comparison cmp)"
          unfolding h6_def ts a5(2) by blast
        show "h6 ! a =
                         (case h ! a of
                            Level lvl \<Rightarrow>
                              Level (lvl\<lparr>cl_trained_u_probabilities :=
                                cl_trained_u_probabilities lvl @
                                concat (map (\<lambda>c. case h ! c of
                                     Comparison cmp \<Rightarrow>
                                       if cl_is_null_level lvl then []
                                       else replicate (count_list (comparison_levels cmp) a)
                                              (lookup (output_column_name cmp)
                                                 (cl_comparison_vector_value lvl),
                                               ''estimate u by random sampling'')
                                   | _ \<Rightarrow> [])
                                  (comparisons st))\<rparr>)
                          | obj \<Rightarrow> obj)"
        proof (cases "h ! a")
          case (Level lvl)
          show ?thesis
            unfolding nth Level py_object.case u_targets_records[OF ok st a Level]
            by (rule refl)
        qed (simp_all add: nth)
      qed
      moreover have "estimate_u_values m_u_records cpu_count rows h lk max_pairs seed = (h6, None)"
        unfolding run sampled Inr h6_def by simp
      ultimately show ?thesis unfolding sampled Inr using l5 l6 by simp
    qed
  qed
  obtain h' err where r: "estimate_u_values m_u_records cpu_count rows h lk max_pairs seed = (h', err)"
    by (cases "estimate_u_values m_u_records cpu_count rows h lk max_pairs seed")
  from body have b: "case sample of
             Inl e \<Rightarrow> err = Some e \<and> take (length h) h' = h
           | Inr sample \<Rightarrow>
               (case m_u_records h5 s' of
                  Inl e \<Rightarrow> err = Some e \<and> take (length h) h' = h
                | Inr lookup \<Rightarrow>
                    err = None \<and> length h \<le> length h' \<and>
                    (\<forall>a < length h.
                       h' ! a =
                         (case h ! a of
                            Level lvl \<Rightarrow>
                              Level (lvl\<lparr>cl_trained_u_probabilities :=
                                cl_trained_u_probabilities lvl @
                                concat (map (\<lambda>c. case h ! c of
                                     Comparison cmp \<Rightarrow>
                                       if cl_is_null_level lvl then []
                                       else replicate (count_list (comparison_levels cmp) a)
                                              (lookup (output_column_name cmp)
                                                 (cl_comparison_vector_value lvl),
                                               ''estimate u by random sampling'')
                                   | _ \<Rightarrow> [])
                                  (comparisons st))\<rparr>)
                          | obj \<Rightarrow> obj)))"
    unfolding r prod.case .
  show ?thesis
    unfolding r prod.case
    by (intro exI[of _ h5] exI[of _ s'] exI[of _ stx] conjI t5 s' g5 stx tf
          b[unfolded sample])
qed

text \<open>
  On \<open>example_store\<close>, with an executor that returns 0.25 for level 1 of \<open>first_name\<close>, the run
  raises nothing, the non-null level gets the one tagged record, and the null level, the
  comparison and the settings object stay as they were.
\<close>

theorem estimate_u_values_only_appends_trained_u_witness:
  "settings_in_store example_store 3 \<and>
   example_store ! 3 =
     Settings \<lparr>settings_link_type = ''dedupe_only'', retain_matching_columns = True,
               retain_intermediate_calculation_columns = True,
               blocking_rules_to_generate_predictions =
                 [\<lparr>blocking_rule = ''l.surname = r.surname'', salting_partitions = 1\<rparr>],
               comparisons = [2]\<rparr> \<and>
   snd (estimate_u_values
          (\<lambda>h s. Inr (\<lambda>column level. if column = ''first_name'' \<and> level = 1 then 0.25 else 0.75))
          4 [None, None, None] example_store \<lparr>settings_obj = 3, sql_dialect = ''duckdb''\<rparr> 1 None)
     = None \<and>
   fst (estimate_u_values
          (\<lambda>h s. Inr (\<lambda>column level. if column = ''first_name'' \<and> level = 1 then 0.25 else 0.75))
          4 [None, None, None] example_store \<lparr>settings_obj = 3, sql_dialect = ''duckdb''\<rparr> 1 None) ! 1
     = Level \<lparr>cl_is_null_level = False, cl_comparison_vector_value = 1,
              cl_tf_adjustment_column = Some ''first_name'', cl_m_probability = Some 0.9,
              cl_trained_u_probabilities = [(0.25, ''estimate u by random sampling'')]\<rparr> \<and>
   fst (estimate_u_values
          (\<lambda>h s. Inr (\<lambda>column level. if column = ''first_name'' \<and> level = 1 then 0.25 else 0.75))
          4 [None, None, None] example_store \<lparr>settings_obj = 3, sql_dialect = ''duckdb''\<rparr> 1 None) ! 0
     = example_store ! 0 \<and>
   fst (estimate_u_values
          (\<lambda>h s. Inr (\<lambda>column level. if column = ''first_name'' \<and> level = 1 then 0.25 else 0.75))
          4 [None, None, None] example_store \<lparr>settings_obj = 3, sql_dialect = ''duckdb''\<rparr> 1 None) ! 2
     = example_store ! 2 \<and>
   fst (estimate_u_values
          (\<lambda>h s. Inr (\<lambda>column level. if column = ''first_name'' \<and> level = 1 then 0.25 else 0.75))
          4 [None, None, None] example_store \<lparr>settings_obj = 3, sql_dialect = ''duckdb''\<rparr> 1 None) ! 3
     = example_store ! 3"
proof -
  let ?lk = "\<lparr>settings_obj = 3, sql_dialect = ''duckdb''\<rparr>"
  let ?st = "\<lparr>settings_link_type = ''dedupe_only'', retain_matching_columns = True,
               retain_intermediate_calculation_columns = True,
               blocking_rules_to_generate_predictions =
                 [\<lparr>blocking_rule = ''l.surname = r.surname'', salting_partitions = 1\<rparr>],
               comparisons = [2]\<rparr>"
  let ?m = "\<lambda>(h::store) (s::ref). (Inr (\<lambda>column level.
               if column = ''first_name'' \<and> level = 1 then 0.25 else 0.75)
               :: py_error + (string \<Rightarrow> int \<Rightarrow> real))"
  have h: "settings_in_store example_store (settings_obj ?lk)"
    by (simp add: settings_in_store_def example_store_def get_settings_def get_comparison_def
        get_level_def)
  have s: "example_store ! settings_obj ?lk = Settings ?st"
    by (simp add: example_store_def)
  have smp: "estimate_u_values_sample ''dedupe_only'' [None, None, None] 1 None =
               Inr (2 / 3, 2, Random_sample (2 / 3) 2 None)"
    by (simp add: estimate_u_values_sample_def sample_parameters_def count_star_def
        rows_needed_for_n_pairs_def py_sqrt_pow_def clamp_sample_def random_sample_sql_def)
  obtain h' err where e: "estimate_u_values ?m 4 [None, None, None] example_store ?lk 1 None = (h', err)"
    by (cases "estimate_u_values ?m 4 [None, None, None] example_store ?lk 1 None")
  note run = estimate_u_values_only_appends_trained_u [OF h s,
      where m_u_records = ?m and cpu_count = 4 and rows = "[None, None, None]"
        and max_pairs = 1 and seed = None, unfolded e prod.case]
  from run have r: "err = None \<and>
    (\<forall>a < length example_store.
       h' ! a =
         (case example_store ! a of
            Level lvl \<Rightarrow>
              Level (lvl\<lparr>cl_trained_u_probabilities :=
                cl_trained_u_probabilities lvl @
                concat (map (\<lambda>c. case example_store ! c of
                     Comparison cmp \<Rightarrow>
                       if cl_is_null_level lvl then []
                       else replicate (count_list (comparison_levels cmp) a)
                              (if output_column_name cmp = ''first_name'' \<and>
                                  cl_comparison_vector_value lvl = 1 then 0.25 else 0.75,
                               ''estimate u by random sampling'')
                   | _ \<Rightarrow> [])
                  (comparisons ?st))\<rparr>)
          | obj \<Rightarrow> obj))"
    by (elim exE conjE) (simp add: smp)
  from r have a1: "h' ! 1 = Level \<lparr>cl_is_null_level = False, cl_comparison_vector_value = 1,
              cl_tf_adjustment_column = Some ''first_name'', cl_m_probability = Some 0.9,
              cl_trained_u_probabilities = [(0.25, ''estimate u by random sampling'')]\<rparr>"
    by (simp add: example_store_def)
  from r have a0: "h' ! 0 = example_store ! 0" by (simp add: example_store_def)
  from r have a2: "h' ! 2 = example_store ! 2" by (simp add: example_store_def)
  from r have a3: "h' ! 3 = example_store ! 3" by (simp add: example_store_def)
  from r have "err = None" ..
  with h s a1 a0 a2 a3 show ?thesis unfolding e by simp
qed

subsection \<open>A link-only run on a single source dataset\<close>

text \<open>
  Claim C10. With a single frame count \<open>n\<close> the value \<open>total_links\<close> is \<open>(n\<^sup>2 - n\<^sup>2) / 2 = 0\<close>
  and \<^verbatim>\<open>_proportion_sample_size_link_only\<close> raises ZeroDivisionError; a \<open>link_only\<close> run
  of \<^verbatim>\<open>estimate_u_values\<close> whose rows all carry the same source dataset \<open>d\<close> reaches that
  division unguarded and ends with the same error.
\<close>

theorem link_only_single_source_raises:
  assumes "set rows \<subseteq> {Some d}"
  shows "proportion_sample_size_link_only [int (length rows)] max_pairs = Inl ZeroDivisionError \<and>
         estimate_u_values_sample ''link_only'' rows max_pairs seed = Inl ZeroDivisionError"
  using assms
  by (simp add: estimate_u_values_sample_def sample_parameters_def
      count_by_source_dataset_single proportion_sample_size_link_only_def py_truediv_def)

theorem link_only_single_source_raises_witness:
  "set [Some ''left'', Some ''left'', Some ''left''] \<subseteq> {Some ''left''} \<and>
   proportion_sample_size_link_only [3] 1000 = Inl ZeroDivisionError \<and>
   estimate_u_values_sample ''link_only'' [Some ''left'', Some ''left'', Some ''left''] 1000 None
     = Inl ZeroDivisionError"
  using link_only_single_source_raises
    [of "[Some ''left'', Some ''left'', Some ''left'']" "''left''" 1000 None]
  by simp

end
